theory Spec2Isabelle
  imports Complex_Main "HOL-Library.Word" "HOL-Library.Log_Nat"
begin

chapter \<open>The symbol table (hash/hash.c)\<close>

section \<open>Data model\<close>

text \<open>
  \<^verbatim>\<open>struct association { char* key; void* value; struct association* next; }\<close> is a node of a
  singly linked chain. A chain is modelled as the list of its (key, value) pairs from the head; the
  \<^verbatim>\<open>NULL\<close> chain is the empty list. A key is the byte content of a C string (the bytes before the
  terminator). A value is an opaque pointer: \<open>None\<close> is the null pointer, \<open>Some p\<close> the
  pointer \<open>p\<close>. The nodes, the copies of the keys and the bucket array belong to the table, which
  allocates and frees each of them once; they have no addresses in the model.

  \<^verbatim>\<open>struct hash { struct association** table; unsigned int capacity; unsigned int num_elems; }\<close>
  keeps the bucket array together with two 32-bit counters. The counters are naturals here and the
  arithmetic on them is written with its wrap-around modulo \<open>2 ^ 32\<close>.
\<close>

type_synonym 'v association = "string \<times> 'v option"

record 'v hash =
  table :: "'v association list list"
  capacity :: nat
  num_elems :: nat

text \<open>
  The values do not belong to the table alone: the caller hands in a pointer, and the table passes
  it to \<^verbatim>\<open>free\<close>. The heap is the set of the pointers that are blocks obtained from
  \<^verbatim>\<open>malloc\<close> and not freed since. \<^verbatim>\<open>free\<close> of the null pointer does nothing; \<^verbatim>\<open>free\<close> of a
  pointer that is not such a block, and the use of a pointer that is not one as a string, have no
  defined behaviour, and a call that gets there yields the fault instead of a result.
\<close>

type_synonym 'v heap = "'v set"

datatype 'v fault = Invalid_free 'v | Invalid_read "'v option"

definition free :: "'v option \<Rightarrow> 'v heap \<Rightarrow> 'v fault + 'v heap" where
  "free p m = (case p of None \<Rightarrow> Inr m
               | Some a \<Rightarrow> if a \<in> m then Inr (m - {a}) else Inl (Invalid_free a))"

definition INITIAL_CAPACITY :: nat where
  "INITIAL_CAPACITY = 128"

definition LOAD_FACTOR_THR :: nat where
  "LOAD_FACTOR_THR = 5"

section \<open>Single precision arithmetic of the load factor\<close>

text \<open>
  \<^verbatim>\<open>_hash_load_factor\<close> computes \<^verbatim>\<open>hash->num_elems / (float)hash->capacity\<close> in binary32.
  The values involved are non-negative and lie far inside the normal range, so a binary32 number is
  modelled as the rational it denotes, and every operation rounds its exact result to 24
  significant bits, ties to even.

  \<open>ilog2 q\<close> is the binary exponent of a positive rational, \<open>\<lfloor>log\<^sub>2 q\<rfloor>\<close>.
\<close>

definition ilog2 :: "rat \<Rightarrow> int" where
  "ilog2 q = (if 1 \<le> q then int (floorlog 2 (nat \<lfloor>q\<rfloor>)) - 1
              else - int (floorlog 2 (nat (\<lceil>1 / q\<rceil> - 1))))"

definition round_half_even :: "rat \<Rightarrow> int" where
  "round_half_even x = (let f = \<lfloor>x\<rfloor>; d = x - of_int f in
     if d < 1 / 2 then f else if 1 / 2 < d then f + 1 else if even f then f else f + 1)"

definition f32_round :: "rat \<Rightarrow> rat" where
  "f32_round q = (if q \<le> 0 then 0 else
     let u = 2 powi (ilog2 q - 23) in of_int (round_half_even (q / u)) * u)"

text \<open>The conversion of an \<^verbatim>\<open>unsigned int\<close> to \<^verbatim>\<open>float\<close>.\<close>

definition float_of_uint :: "nat \<Rightarrow> rat" where
  "float_of_uint n = f32_round (of_nat n)"

section \<open>Creation, hashing, insertion\<close>

definition hash_table_init :: "'v hash \<Rightarrow> nat \<Rightarrow> 'v hash" where
  "hash_table_init h cap = h\<lparr>table := replicate cap [], capacity := cap, num_elems := 0\<rparr>"

definition hash_create :: "'v hash" where
  "hash_create = hash_table_init \<lparr>table = [], capacity = 0, num_elems = 0\<rparr> INITIAL_CAPACITY"

text \<open>
  The quotient of the two converted counters, rounded once more. A capacity of zero, where C
  yields an infinity or a NaN, gives 0 here; no table made by \<open>hash_create\<close> has it
  (\<open>hash_inv\<close> below).
\<close>

definition hash_load_factor :: "'v hash \<Rightarrow> rat" where
  "hash_load_factor h = f32_round (float_of_uint (num_elems h) / float_of_uint (capacity h))"

text \<open>
  The DJB hash: \<^verbatim>\<open>unsigned long hash = 5381; while ((c = *key++)) hash = ((hash << 5) + hash) + c;\<close>
  with a 64-bit \<^verbatim>\<open>unsigned long\<close>, \<^verbatim>\<open>c\<close> the (signed) \<^verbatim>\<open>char\<close> widened to \<^verbatim>\<open>int\<close>, and the result
  truncated to \<^verbatim>\<open>unsigned int\<close> on return.
\<close>

definition djb_step :: "64 word \<Rightarrow> char \<Rightarrow> 64 word" where
  "djb_step h ch = (push_bit 5 h + h) + word_of_int (sint (word_of_nat (of_char ch) :: 8 word))"

definition djb_hash :: "string \<Rightarrow> 32 word" where
  "djb_hash key = ucast (foldl djb_step 5381 key)"

definition bucket_index :: "'v hash \<Rightarrow> string \<Rightarrow> nat" where
  "bucket_index h key = unat (djb_hash key) mod capacity h"

definition association_create :: "string \<Rightarrow> 'v option \<Rightarrow> 'v association" where
  "association_create key val = (key, val)"

text \<open>
  The search loop of \<open>hash_insert\<close> followed by \<^verbatim>\<open>cur->value = value\<close>: the chain with
  the value of the first node whose key compares equal replaced, or \<open>None\<close> when the loop ends
  with \<^verbatim>\<open>cur == NULL\<close>.
\<close>

fun chain_assign :: "'v association list \<Rightarrow> string \<Rightarrow> 'v option \<Rightarrow> 'v association list option" where
  "chain_assign [] key val = None"
| "chain_assign ((k, v) # rest) key val =
     (if key = k then Some ((k, val) # rest)
      else map_option ((#) (k, v)) (chain_assign rest key val))"

text \<open>The part of \<open>hash_insert\<close> after the resize check.\<close>

definition hash_put :: "'v hash \<Rightarrow> string \<Rightarrow> 'v option \<Rightarrow> 'v hash" where
  "hash_put h key val =
     (let idx = bucket_index h key in
      case chain_assign (table h ! idx) key val of
        Some chain \<Rightarrow> h\<lparr>table := (table h)[idx := chain]\<rparr>
      | None \<Rightarrow> h\<lparr>table := (table h)[idx := association_create key val # table h ! idx],
                    num_elems := (num_elems h + 1) mod 2 ^ 32\<rparr>)"

text \<open>
  The associations \<open>_hash_resize\<close> walks through: bucket 0 to \<open>old_capacity - 1\<close>, each
  chain from its head.
\<close>

definition old_entries :: "'v hash \<Rightarrow> 'v association list" where
  "old_entries h = concat (map ((!) (table h)) [0..<capacity h])"

text \<open>
  \<^verbatim>\<open>_association_free\<close> frees the copy of the key, the value and the node.
\<close>

definition association_free :: "'v association \<Rightarrow> 'v heap \<Rightarrow> 'v fault + 'v heap" where
  "association_free assoc m = free (snd assoc) m"

text \<open>
  \<open>hash_insert\<close> calls \<open>_hash_resize\<close>, which re-inserts every old association with
  \<open>hash_insert\<close> and then frees it, value included; \<open>rehash\<close> is the loop of
  \<open>_hash_resize\<close>. Each function takes the heap and returns the table with the heap, or the
  fault.
\<close>

function hash_insert :: "'v hash \<Rightarrow> string \<Rightarrow> 'v option \<Rightarrow> 'v heap \<Rightarrow> 'v fault + 'v hash \<times> 'v heap"
  and hash_resize :: "'v hash \<Rightarrow> 'v heap \<Rightarrow> 'v fault + 'v hash \<times> 'v heap"
  and rehash :: "'v association list \<Rightarrow> 'v hash \<Rightarrow> 'v heap \<Rightarrow> 'v fault + 'v hash \<times> 'v heap"
where
  "hash_insert h key val m =
     (if float_of_uint LOAD_FACTOR_THR < hash_load_factor h
      then (case hash_resize h m of Inl f \<Rightarrow> Inl f
            | Inr (h', m') \<Rightarrow> Inr (hash_put h' key val, m'))
      else Inr (hash_put h key val, m))"
| "hash_resize h m = rehash (old_entries h) (hash_table_init h ((capacity h * 2) mod 2 ^ 32)) m"
| "rehash [] h m = Inr (h, m)"
| "rehash (cur # rest) h m =
     (case hash_insert h (fst cur) (snd cur) m of Inl f \<Rightarrow> Inl f
      | Inr (h', m') \<Rightarrow>
          (case association_free cur m' of Inl f \<Rightarrow> Inl f
           | Inr m'' \<Rightarrow> rehash rest h' m''))"
  by pat_completeness auto

text \<open>
  Termination. The recursion is nested: the table handed to the next \<open>hash_insert\<close> of the
  loop is the one the previous call returned. The measure of a table is the larger of its stored
  associations and its counter; an insertion raises it by at most one, and a resize starts from
  an empty table.
\<close>

definition hmeasure :: "'v hash \<Rightarrow> nat" where
  "hmeasure h = max (length (old_entries h)) (num_elems h)"

lemma chain_assign_length:
  "chain_assign c key val = Some c' \<Longrightarrow> length c' = length c"
  by (induction c arbitrary: c') (auto split: if_splits)

lemma length_old_entries:
  "length (old_entries h) = (\<Sum>i\<leftarrow>[0..<capacity h]. length (table h ! i))"
  by (simp add: old_entries_def length_concat comp_def)

lemma sum_list_update_le:
  assumes "\<And>i. length (f i) \<le> length (g i) + (if i = j then 1 else 0)"
  shows "(\<Sum>i\<leftarrow>[0..<n]. length (f i)) \<le> (\<Sum>i\<leftarrow>[0..<n]. length (g i)) + 1"
proof -
  have "(\<Sum>i\<leftarrow>[0..<n]. length (f i)) \<le> (\<Sum>i\<leftarrow>[0..<n]. length (g i)) + (if j < n then 1 else 0)"
  proof (induction n)
    case 0
    show ?case by simp
  next
    case (Suc n)
    from assms [of n] Suc show ?case by (auto split: if_splits)
  qed
  then show ?thesis by (simp split: if_splits)
qed

lemma hash_put_entries:
  "length (old_entries (hash_put h key val)) \<le> length (old_entries h) + 1"
proof -
  let ?j = "bucket_index h key"
  have "length (table (hash_put h key val) ! i) \<le> length (table h ! i) + (if i = ?j then 1 else 0)" for i
    by (cases "?j < length (table h)")
       (auto simp: hash_put_def Let_def nth_list_update list_update_beyond chain_assign_length
          split: option.splits)
  moreover have "capacity (hash_put h key val) = capacity h"
    by (simp add: hash_put_def Let_def split: option.splits)
  ultimately show ?thesis
    unfolding length_old_entries
    using sum_list_update_le [of "\<lambda>i. table (hash_put h key val) ! i" "\<lambda>i. table h ! i" ?j "capacity h"]
    by simp
qed

lemma hash_put_num_elems:
  "num_elems (hash_put h key val) \<le> num_elems h + 1"
proof -
  have "(num_elems h + 1) mod 2 ^ 32 \<le> num_elems h + 1" by (rule mod_less_eq_dividend)
  then show ?thesis by (simp add: hash_put_def Let_def split: option.splits)
qed

lemma hash_put_hmeasure: "hmeasure (hash_put h key val) \<le> hmeasure h + 1"
  using hash_put_entries [of h key val] hash_put_num_elems [of h key val]
  unfolding hmeasure_def by linarith

lemma hash_put_hmeasure_resized:
  assumes "hmeasure g \<le> length (old_entries h)"
  shows "hmeasure (hash_put g key val) \<le> hmeasure h + 1"
proof -
  have "hmeasure (hash_put g key val) \<le> hmeasure g + 1" by (rule hash_put_hmeasure)
  also have "\<dots> \<le> length (old_entries h) + 1" using assms by simp
  also have "\<dots> \<le> hmeasure h + 1" by (simp add: hmeasure_def)
  finally show ?thesis .
qed

lemma hmeasure_init: "hmeasure (hash_table_init h cap) = 0"
  by (simp add: hmeasure_def hash_table_init_def length_old_entries sum_list_0 cong: map_cong)

lemma hmeasure_dom:
  fixes h h' g :: "'v hash"
  shows "hash_insert_hash_resize_rehash_dom (Inl (h, key, val, m)) \<Longrightarrow>
     hash_insert h key val m = Inr (r, mr) \<Longrightarrow> hmeasure r \<le> hmeasure h + 1"
  and "hash_insert_hash_resize_rehash_dom (Inr (Inl (h', m1))) \<Longrightarrow>
     hash_resize h' m1 = Inr (r1, mr1) \<Longrightarrow> hmeasure r1 \<le> length (old_entries h')"
  and "hash_insert_hash_resize_rehash_dom (Inr (Inr (es, g, m2))) \<Longrightarrow>
     rehash es g m2 = Inr (r2, mr2) \<Longrightarrow> hmeasure r2 \<le> length es + hmeasure g"
proof (induction h key val m and h' m1 and es g m2 arbitrary: r mr and r1 mr1 and r2 mr2
    rule: hash_insert_hash_resize_rehash.pinduct)
  case (1 h key val m)
  show ?case
  proof (cases "float_of_uint LOAD_FACTOR_THR < hash_load_factor h")
    case True
    with "1.prems" "1.hyps" obtain g mg where g: "hash_resize h m = Inr (g, mg)" "r = hash_put g key val"
      by (auto simp: hash_insert.psimps split: sum.splits)
    from "1.IH" [OF True g(1)] show ?thesis
      unfolding g(2) by (rule hash_put_hmeasure_resized)
  next
    case False
    with "1.prems" "1.hyps" have "r = hash_put h key val" by (simp add: hash_insert.psimps)
    then show ?thesis using hash_put_hmeasure [of h key val] by simp
  qed
next
  case (2 h m)
  from "2.IH" [of r1 mr1] "2.prems" "2.hyps" show ?case
    by (simp add: hash_resize.psimps hmeasure_init)
next
  case (3 h m)
  then show ?case by (simp add: rehash.psimps)
next
  case (4 cur rest h m)
  from "4.prems" "4.hyps" obtain g mg mf where
    g: "hash_insert h (fst cur) (snd cur) m = Inr (g, mg)" "association_free cur mg = Inr mf"
      "rehash rest g mf = Inr (r2, mr2)"
    by (auto simp: rehash.psimps split: sum.splits)
  from "4.IH"(1) [OF g(1)] "4.IH"(2) [OF g(1) refl g(2) g(3)] show ?case by simp
qed

termination hash_insert
  apply (relation "inv_image (less_than <*lex*> less_than <*lex*> less_than)
    (\<lambda>x. case x of
        Inl (h, key, val, m) \<Rightarrow> (hmeasure h, 2::nat, 0::nat)
      | Inr (Inl (h, m)) \<Rightarrow> (hmeasure h, 1, 0)
      | Inr (Inr (es, h, m)) \<Rightarrow> (length es + hmeasure h, 0, length es))")
  subgoal by (intro wf_inv_image wf_lex_prod wf_less_than)
  subgoal by simp
  subgoal for h m
    using hmeasure_init [of h "(capacity h * 2) mod 2 ^ 32"] by (auto simp: hmeasure_def [of h])
  subgoal by simp
  subgoal for cur rest h m x21 x1 x2 x22 using hmeasure_dom(1) [of h "fst cur" "snd cur" m x1 x2] by auto
  done

declare hash_insert.simps [simp del] hash_resize.simps [simp del]

section \<open>Properties of the rounding\<close>

lemma ilog2_bounds:
  assumes "0 < q"
  shows "2 powi (ilog2 q) \<le> q" and "q < 2 powi (ilog2 q + 1)"
proof -
  have "2 powi (ilog2 q) \<le> q \<and> q < 2 powi (ilog2 q + 1)"
  proof (cases "1 \<le> q")
    case True
    define n where "n = nat \<lfloor>q\<rfloor>"
    have n: "0 < n" "of_nat n \<le> q" "q < of_nat n + 1"
      using True by (auto simp: n_def) linarith+
    define k where "k = floorlog 2 n"
    from floorlog_bounds [of n 2] n(1)
    have b: "2 ^ (k - 1) \<le> n" "n < 2 ^ k" by (auto simp: k_def)
    have kpos: "0 < k" using n(1) by (simp add: k_def floorlog_def)
    have e: "ilog2 q = int (k - 1)" using True kpos by (simp add: ilog2_def n_def k_def)
    have "(2::rat) ^ (k - 1) \<le> of_nat n" using b(1) by (metis of_nat_le_iff of_nat_numeral of_nat_power)
    then have lo: "(2::rat) ^ (k - 1) \<le> q" using n(2) by linarith
    have "n + 1 \<le> 2 ^ k" using b(2) by simp
    then have "(of_nat (n + 1) :: rat) \<le> 2 ^ k" by (metis of_nat_le_iff of_nat_numeral of_nat_power)
    then have hi: "q < 2 ^ k" using n(3) by simp
    have "int (k - 1) + 1 = int k" using kpos by simp
    then show ?thesis using lo hi by (simp add: e power_int_def del: of_nat_diff)
  next
    case False
    define y where "y = 1 / q"
    have y: "1 < y" using False assms by (simp add: y_def)
    define m where "m = nat (\<lceil>y\<rceil> - 1)"
    have m: "0 < m" "of_nat m < y" "y \<le> of_nat m + 1"
      using y by (auto simp: m_def) linarith+
    define k where "k = floorlog 2 m"
    from floorlog_bounds [of m 2] m(1)
    have b: "2 ^ (k - 1) \<le> m" "m < 2 ^ k" by (auto simp: k_def)
    have kpos: "0 < k" using m(1) by (simp add: k_def floorlog_def)
    have e: "ilog2 q = - int k" using False by (simp add: ilog2_def m_def k_def y_def)
    have "m + 1 \<le> 2 ^ k" using b(2) by simp
    then have "(of_nat (m + 1) :: rat) \<le> 2 ^ k" by (metis of_nat_le_iff of_nat_numeral of_nat_power)
    then have "y \<le> 2 ^ k" using m(3) by simp
    then have "1 / q \<le> 2 ^ k" by (simp add: y_def)
    then have lo: "1 / 2 ^ k \<le> q" using assms by (simp add: field_simps)
    have "(2::rat) ^ (k - 1) \<le> of_nat m" using b(1) by (metis of_nat_le_iff of_nat_numeral of_nat_power)
    then have "2 ^ (k - 1) < 1 / q" using m(2) unfolding y_def by linarith
    then have hi: "q < 1 / 2 ^ (k - 1)" using assms by (simp add: field_simps)
    have "- int k + 1 = - int (k - 1)" using kpos by simp
    then have "(2::rat) powi (- int k + 1) = 1 / 2 ^ (k - 1)"
      by (simp add: power_int_minus_divide del: of_nat_diff)
    then show ?thesis using lo hi by (simp add: e power_int_minus_divide)
  qed
  then show "2 powi (ilog2 q) \<le> q" and "q < 2 powi (ilog2 q + 1)" by simp_all
qed

lemma ilog2_unique:
  assumes "0 < q" "2 powi e \<le> q" "q < 2 powi (e + 1)"
  shows "ilog2 q = e"
proof -
  note b = ilog2_bounds [OF assms(1)]
  have "(2::rat) powi e < 2 powi (ilog2 q + 1)" using assms(2) b(2) by linarith
  then have 1: "e < ilog2 q + 1"
    using power_int_increasing [of "ilog2 q + 1" e "2::rat"] by (cases "e < ilog2 q + 1") auto
  have "(2::rat) powi (ilog2 q) < 2 powi (e + 1)" using assms(3) b(1) by linarith
  then have 2: "ilog2 q < e + 1"
    using power_int_increasing [of "e + 1" "ilog2 q" "2::rat"] by (cases "ilog2 q < e + 1") auto
  from 1 2 show ?thesis by simp
qed

lemma round_half_even_ge: "of_int N \<le> x \<Longrightarrow> N \<le> round_half_even x"
  by (auto simp: round_half_even_def Let_def le_floor_iff) linarith+

lemma round_half_even_le: "x \<le> of_int N \<Longrightarrow> round_half_even x \<le> N"
  by (auto simp: round_half_even_def Let_def) linarith+

lemma round_half_even_of_int [simp]: "round_half_even (of_int N) = N"
  by (simp add: round_half_even_def)

lemma round_half_even_tie_le:
  assumes "x \<le> of_int N + 1 / 2" "even N"
  shows "round_half_even x \<le> N"
proof -
  have f: "\<lfloor>x\<rfloor> \<le> N" using assms(1) by (simp add: floor_le_iff)
  show ?thesis
  proof (cases "\<lfloor>x\<rfloor> = N")
    case True
    then have "x - of_int \<lfloor>x\<rfloor> \<le> 1 / 2" using assms(1) by simp
    then show ?thesis using True assms(2) by (auto simp: round_half_even_def Let_def)
  next
    case False
    then have "\<lfloor>x\<rfloor> + 1 \<le> N" using f by simp
    then show ?thesis by (auto simp: round_half_even_def Let_def)
  qed
qed


lemma f32_round_bounds:
  assumes "0 < q"
  shows "2 powi (ilog2 q) \<le> f32_round q" and "f32_round q \<le> 2 powi (ilog2 q + 1)"
proof -
  define u :: rat where "u = 2 powi (ilog2 q - 23)"
  have u: "0 < u" by (simp add: u_def)
  have lo23: "2 powi (ilog2 q) = 2 ^ 23 * u"
    unfolding u_def by (simp add: power_int_diff)
  have hi24: "2 powi (ilog2 q + 1) = 2 ^ 24 * u"
    unfolding u_def by (simp add: power_int_diff power_int_add)
  from ilog2_bounds [OF assms]
  have "2 ^ 23 * u \<le> q" "q < 2 ^ 24 * u" by (simp_all add: lo23 hi24)
  then have q: "of_int (2 ^ 23) \<le> q / u" "q / u \<le> of_int (2 ^ 24)"
    using u by (simp_all add: field_simps)
  have "2 ^ 23 \<le> round_half_even (q / u)" "round_half_even (q / u) \<le> 2 ^ 24"
    using round_half_even_ge [OF q(1)] round_half_even_le [OF q(2)] by simp_all
  then have "(of_int (2 ^ 23) :: rat) \<le> of_int (round_half_even (q / u))"
    "(of_int (round_half_even (q / u)) :: rat) \<le> of_int (2 ^ 24)"
    by (simp_all only: of_int_le_iff)
  then have "2 ^ 23 * u \<le> of_int (round_half_even (q / u)) * u"
    "of_int (round_half_even (q / u)) * u \<le> 2 ^ 24 * u"
    using u by simp_all
  moreover have "f32_round q = of_int (round_half_even (q / u)) * u"
    using assms by (simp add: f32_round_def u_def Let_def)
  ultimately show "2 powi (ilog2 q) \<le> f32_round q" and "f32_round q \<le> 2 powi (ilog2 q + 1)"
    by (simp_all add: lo23 hi24)
qed

lemma f32_round_nonneg: "0 \<le> f32_round q"
proof (cases "0 < q")
  case True
  have "(0::rat) \<le> 2 powi (ilog2 q)" by simp
  with f32_round_bounds(1) [OF True] show ?thesis by linarith
next
  case False
  then show ?thesis by (simp add: f32_round_def)
qed

lemma ilog2_less:
  assumes "0 < q" "q < 2 powi e"
  shows "ilog2 q < e"
proof -
  have "(2::rat) powi (ilog2 q) < 2 powi e" using ilog2_bounds(1) [OF assms(1)] assms(2) by linarith
  then show ?thesis
    using power_int_increasing [of e "ilog2 q" "2::rat"] by (cases "ilog2 q < e") auto
qed

lemma f32_round_le_pow2:
  assumes "q \<le> 2 powi e"
  shows "f32_round q \<le> 2 powi e"
proof (cases "0 < q")
  case False
  then show ?thesis by (simp add: f32_round_def)
next
  case True
  show ?thesis
  proof (cases "q = 2 powi e")
    case eq: True
    have e: "ilog2 q = e" by (rule ilog2_unique) (simp_all add: eq power_int_add)
    have "q / 2 powi (e - 23) = of_int (2 ^ 23)" by (simp add: eq power_int_diff)
    then have "f32_round q = of_int (2 ^ 23) * 2 powi (e - 23)"
      using True unfolding f32_round_def e Let_def by (simp only: round_half_even_of_int) simp
    then show ?thesis by (simp add: power_int_diff)
  next
    case False
    then have "q < 2 powi e" using assms by simp
    then have "ilog2 q + 1 \<le> e" using ilog2_less [OF True, of e] by simp
    then have "(2::rat) powi (ilog2 q + 1) \<le> 2 powi e" by (intro power_int_increasing) simp_all
    with f32_round_bounds(2) [OF True] show ?thesis by linarith
  qed
qed

lemma f32_round_exact:
  assumes "0 < q" "q / 2 powi (ilog2 q - 23) = of_int m"
  shows "f32_round q = q"
proof -
  have "f32_round q = of_int m * 2 powi (ilog2 q - 23)"
    using assms(1) unfolding f32_round_def Let_def assms(2) by simp
  also have "\<dots> = q" using assms(2) [symmetric] by simp
  finally show ?thesis .
qed

lemma f32_round_le_5:
  assumes "q \<le> 5"
  shows "f32_round q \<le> 5"
proof (cases "0 < q")
  case False
  then show ?thesis by (simp add: f32_round_def)
next
  case True
  show ?thesis
  proof (cases "q \<le> 4")
    case le4: True
    have "f32_round q \<le> 2 powi 2" by (rule f32_round_le_pow2) (use le4 in simp)
    then show ?thesis by simp
  next
    case False
    then have "2 powi 2 \<le> q" "q < 2 powi (2 + 1)" using assms by simp_all
    then have e: "ilog2 q = 2" by (intro ilog2_unique True)
    have "q / 2 powi (2 - 23) \<le> of_int (5 * 2 ^ 21)"
      using assms by (simp add: power_int_minus_divide)
    then have "round_half_even (q / 2 powi (2 - 23)) \<le> 5 * 2 ^ 21" by (rule round_half_even_le)
    then have "(of_int (round_half_even (q / 2 powi (2 - 23))) :: rat) \<le> of_int (5 * 2 ^ 21)"
      by (simp only: of_int_le_iff)
    then have "of_int (round_half_even (q / 2 powi (2 - 23))) * 2 powi (2 - 23) \<le> (5::rat)"
      by (simp add: power_int_minus_divide)
    then show ?thesis using True unfolding f32_round_def e Let_def by simp
  qed
qed

lemma float_of_uint_le:
  assumes "n \<le> 2 ^ 32"
  shows "float_of_uint n \<le> 2 ^ 32"
proof -
  have "(of_nat n :: rat) \<le> of_nat (2 ^ 32)" using assms by (simp only: of_nat_le_iff)
  then have "(of_nat n :: rat) \<le> 2 powi 32" by simp
  then have "f32_round (of_nat n) \<le> 2 powi 32" by (rule f32_round_le_pow2)
  then show ?thesis by (simp add: float_of_uint_def)
qed

lemma float_of_uint_gt_half:
  assumes "0 < c"
  shows "of_nat c < 2 * float_of_uint c"
proof -
  have pos: "(0::rat) < of_nat c" using assms by simp
  have "of_nat c < (2::rat) powi (ilog2 (of_nat c) + 1)" by (rule ilog2_bounds(2) [OF pos])
  also have "\<dots> = 2 * 2 powi (ilog2 (of_nat c))" by (simp add: power_int_add)
  also have "\<dots> \<le> 2 * float_of_uint c"
    using f32_round_bounds(1) [OF pos] by (simp add: float_of_uint_def)
  finally show ?thesis .
qed

lemma load_factor_capacity_bound:
  assumes "5 < f32_round (float_of_uint n / float_of_uint c)" "n < 2 ^ 32"
  shows "c < 2 ^ 31"
proof (cases "0 < c")
  case False
  then show ?thesis by simp
next
  case True
  have "(0::rat) < of_nat c" using True by simp
  then have fc: "0 < float_of_uint c" using float_of_uint_gt_half [OF True] by linarith
  have "\<not> float_of_uint n / float_of_uint c \<le> 5" using assms(1) f32_round_le_5 by fastforce
  then have "5 * float_of_uint c < float_of_uint n" using fc by (simp add: field_simps)
  moreover have "float_of_uint n \<le> 2 ^ 32" by (rule float_of_uint_le) (use assms(2) in simp)
  ultimately have "5 * of_nat c < (2 * 2 ^ 32 :: rat)" using float_of_uint_gt_half [OF True] by linarith
  then have "(of_nat (5 * c) :: rat) < of_nat (2 * 2 ^ 32)" by simp
  then have "5 * c < 2 * 2 ^ 32" by (simp only: of_nat_less_iff)
  then show ?thesis by simp
qed

section \<open>Lookup and disposal\<close>

text \<open>
  The search loop shared by \<open>hash_get\<close> and \<open>hash_contains\<close>: the first
  node of the chain whose key compares equal (\<^verbatim>\<open>!strcmp(key, cur->key)\<close>), or \<open>None\<close> for
  \<^verbatim>\<open>cur == NULL\<close>. \<open>hash_get\<close> returns the stored pointer, or the null pointer when the key is
  absent.
\<close>

fun chain_find :: "'v association list \<Rightarrow> string \<Rightarrow> 'v association option" where
  "chain_find [] key = None"
| "chain_find ((k, v) # rest) key = (if key = k then Some (k, v) else chain_find rest key)"

definition hash_get :: "'v hash \<Rightarrow> string \<Rightarrow> 'v option" where
  "hash_get h key =
     (case chain_find (table h ! bucket_index h key) key of Some (k, v) \<Rightarrow> v | None \<Rightarrow> None)"

definition hash_contains :: "'v hash \<Rightarrow> string \<Rightarrow> bool" where
  "hash_contains h key =
     (case chain_find (table h ! bucket_index h key) key of Some a \<Rightarrow> True | None \<Rightarrow> False)"

text \<open>
  \<open>hash_free\<close> walks the buckets from 0 to \<open>capacity - 1\<close>, each chain from its head,
  and frees every association; \<open>free_all\<close> is that loop over the associations in this order.
\<close>

fun free_all :: "'v association list \<Rightarrow> 'v heap \<Rightarrow> 'v fault + 'v heap" where
  "free_all [] m = Inr m"
| "free_all (cur # rest) m =
     (case association_free cur m of Inl f \<Rightarrow> Inl f | Inr m' \<Rightarrow> free_all rest m')"

definition hash_free :: "'v hash \<Rightarrow> 'v heap \<Rightarrow> 'v fault + 'v heap" where
  "hash_free h m = free_all (old_entries h) m"

section \<open>Representation invariant and abstraction\<close>

text \<open>
  \<^verbatim>\<open>struct hash\<close> is opaque to clients (hash.h declares it without its fields), so every table
  a caller holds comes from \<open>hash_create\<close> through the operations of the library. Such a table has as
  many buckets as its capacity says, a positive capacity, counters that fit 32 bits, every
  association in the bucket its key hashes to, and no key twice in a chain. At capacity 0 the C
  code divides by zero in \<^verbatim>\<open>hashval % hash->capacity\<close>; the invariant excludes it.
\<close>

definition hash_inv :: "'v hash \<Rightarrow> bool" where
  "hash_inv h \<longleftrightarrow>
     length (table h) = capacity h \<and> 0 < capacity h \<and> capacity h < 2 ^ 32 \<and> num_elems h < 2 ^ 32 \<and>
     (\<forall>i < capacity h. \<forall>a \<in> set (table h ! i). bucket_index h (fst a) = i) \<and>
     (\<forall>i < capacity h. distinct (map fst (table h ! i)))"

text \<open>The finite map a table stands for.\<close>

definition hash_map :: "'v hash \<Rightarrow> string \<rightharpoonup> 'v option" where
  "hash_map h key = map_of (table h ! bucket_index h key) key"

lemma chain_find_map_of:
  "chain_find c key = (case map_of c key of None \<Rightarrow> None | Some v \<Rightarrow> Some (key, v))"
  by (induction c) auto

lemma hash_get_map: "hash_get h key = (case hash_map h key of None \<Rightarrow> None | Some v \<Rightarrow> v)"
  by (simp add: hash_get_def hash_map_def chain_find_map_of split: option.splits)

lemma hash_contains_map: "hash_contains h key \<longleftrightarrow> key \<in> dom (hash_map h)"
  by (auto simp: hash_contains_def hash_map_def chain_find_map_of split: option.splits)

lemma chain_assign_None: "chain_assign c key val = None \<longleftrightarrow> key \<notin> fst ` set c"
  by (induction c) (auto split: if_splits)

lemma chain_assign_Some:
  "chain_assign c key val = Some c' \<Longrightarrow>
     map fst c' = map fst c \<and> map_of c' = (map_of c)(key \<mapsto> val) \<and> key \<in> fst ` set c"
  by (induction c arbitrary: c') (auto split: if_splits simp: fun_upd_twist)

lemma bucket_index_less: "0 < capacity h \<Longrightarrow> bucket_index h key < capacity h"
  by (simp add: bucket_index_def)

lemma hash_inv_create: "hash_inv hash_create"
  by (simp add: hash_inv_def hash_create_def hash_table_init_def INITIAL_CAPACITY_def)

lemma hash_inv_init:
  "0 < cap \<Longrightarrow> cap < 2 ^ 32 \<Longrightarrow> hash_inv (hash_table_init h cap)"
  by (simp add: hash_inv_def hash_table_init_def)

lemma hash_map_init: "0 < cap \<Longrightarrow> hash_map (hash_table_init h cap) = Map.empty"
  by (rule ext) (simp add: hash_map_def hash_table_init_def bucket_index_def)

lemma hash_put_capacity [simp]: "capacity (hash_put h key val) = capacity h"
  by (simp add: hash_put_def Let_def split: option.splits)

lemma bucket_index_put [simp]: "bucket_index (hash_put h key val) k = bucket_index h k"
  by (simp add: bucket_index_def)

lemma hash_put_inv:
  assumes "hash_inv h"
  shows "hash_inv (hash_put h key val)"
proof (cases "chain_assign (table h ! bucket_index h key) key val")
  case None
  have j: "bucket_index h key < capacity h" using assms by (simp add: hash_inv_def bucket_index_less)
  have notin: "key \<notin> fst ` set (table h ! bucket_index h key)" using None by (simp add: chain_assign_None)
  have t: "table (hash_put h key val) = (table h)[bucket_index h key := (key, val) # table h ! bucket_index h key]"
    using None by (simp add: hash_put_def Let_def association_create_def)
  have n: "num_elems (hash_put h key val) < 2 ^ 32"
    using None by (simp add: hash_put_def Let_def)
  show ?thesis
    unfolding hash_inv_def using assms j notin n
    by (auto simp: t hash_inv_def nth_list_update)
next
  case (Some c)
  have j: "bucket_index h key < capacity h" using assms by (simp add: hash_inv_def bucket_index_less)
  note cs = chain_assign_Some [OF Some]
  have st: "set (map fst c) = set (map fst (table h ! bucket_index h key))" using cs by simp
  have t: "table (hash_put h key val) = (table h)[bucket_index h key := c]"
    using Some by (simp add: hash_put_def Let_def)
  have n: "num_elems (hash_put h key val) = num_elems h" using Some by (simp add: hash_put_def Let_def)
  have "bucket_index h (fst a) = i" if "i < capacity h" "a \<in> set (table (hash_put h key val) ! i)" for i a
  proof (cases "i = bucket_index h key")
    case True
    then have "fst a \<in> set (map fst c)" using that assms by (simp add: t hash_inv_def)
    then obtain b where "b \<in> set (table h ! bucket_index h key)" "fst b = fst a"
      unfolding st by auto
    then have "bucket_index h (fst b) = bucket_index h key"
      using assms j unfolding hash_inv_def by blast
    then show ?thesis using True \<open>fst b = fst a\<close> by simp
  next
    case False
    then show ?thesis using that assms by (auto simp: t hash_inv_def)
  qed
  moreover have "distinct (map fst (table (hash_put h key val) ! i))" if "i < capacity h" for i
    using that assms cs by (cases "i = bucket_index h key") (auto simp: t hash_inv_def)
  ultimately show ?thesis
    unfolding hash_inv_def using assms by (auto simp: t n hash_inv_def)
qed

lemma hash_put_map:
  assumes "hash_inv h"
  shows "hash_map (hash_put h key val) = (hash_map h)(key \<mapsto> val)"
proof (rule ext)
  fix k
  have j: "bucket_index h key < length (table h)" using assms by (simp add: hash_inv_def bucket_index_less)
  show "hash_map (hash_put h key val) k = ((hash_map h)(key \<mapsto> val)) k"
  proof (cases "chain_assign (table h ! bucket_index h key) key val")
    case None
    then have t: "table (hash_put h key val) = (table h)[bucket_index h key := (key, val) # table h ! bucket_index h key]"
      by (simp add: hash_put_def Let_def association_create_def)
    show ?thesis using j by (auto simp: hash_map_def t nth_list_update)
  next
    case (Some c)
    then have t: "table (hash_put h key val) = (table h)[bucket_index h key := c]"
      by (simp add: hash_put_def Let_def)
    show ?thesis using j chain_assign_Some [OF Some] by (auto simp: hash_map_def t nth_list_update)
  qed
qed


lemma map_of_rev_distinct:
  "distinct (map fst es) \<Longrightarrow> map_of (rev es) = map_of es"
proof (induction es)
  case Nil
  show ?case by simp
next
  case (Cons a es)
  obtain k v where a: "a = (k, v)" by (cases a)
  have "k \<notin> dom (map_of es)" using Cons.prems by (simp add: a dom_map_of_conv_image_fst)
  then have "map_of es k = None" by auto
  then have "[k \<mapsto> v] ++ map_of es = (map_of es)(k \<mapsto> v)"
    by (intro ext) (auto simp: map_add_def split: option.splits)
  then show ?case using Cons by (simp add: a)
qed

lemma buckets_concat:
  assumes "\<forall>i < length T. \<forall>a \<in> set (T ! i). f (fst a) = i + off"
    and "\<forall>i < length T. distinct (map fst (T ! i))"
  shows "distinct (map fst (concat T)) \<and>
    (\<forall>j k. j < length T \<longrightarrow> f k = j + off \<longrightarrow> map_of (concat T) k = map_of (T ! j) k) \<and>
    (\<forall>a \<in> set (concat T). off \<le> f (fst a))"
  using assms
proof (induction T arbitrary: off)
  case Nil
  show ?case by simp
next
  case (Cons b T)
  have b: "\<forall>a \<in> set b. f (fst a) = off" "distinct (map fst b)"
    using Cons.prems(1) [rule_format, of 0] Cons.prems(2) [rule_format, of 0] by simp_all
  have T1: "\<forall>i < length T. \<forall>a \<in> set (T ! i). f (fst a) = i + Suc off"
  proof (intro allI impI ballI)
    fix i a assume "i < length T" "a \<in> set (T ! i)"
    then show "f (fst a) = i + Suc off" using Cons.prems(1) [rule_format, of "Suc i" a] by simp
  qed
  have T2: "\<forall>i < length T. distinct (map fst (T ! i))"
  proof (intro allI impI)
    fix i assume "i < length T"
    then show "distinct (map fst (T ! i))" using Cons.prems(2) [rule_format, of "Suc i"] by simp
  qed
  note IH = Cons.IH [OF T1 T2]
  from IH have d: "distinct (map fst (concat T))" by simp
  from IH have ge: "\<forall>a \<in> set (concat T). Suc off \<le> f (fst a)" by simp
  from IH have look: "\<And>j k. j < length T \<Longrightarrow> f k = j + Suc off \<Longrightarrow> map_of (concat T) k = map_of (T ! j) k"
    by simp
  have disj: "set (map fst b) \<inter> set (map fst (concat T)) = {}"
  proof (rule ccontr)
    assume "set (map fst b) \<inter> set (map fst (concat T)) \<noteq> {}"
    then obtain x y where "x \<in> set b" "y \<in> set (concat T)" "fst x = fst y"
      by (auto simp del: set_concat)
    then show False using b(1) ge by fastforce
  qed
  have 1: "distinct (map fst (concat (b # T)))"
    using b(2) d disj by (simp only: concat.simps map_append distinct_append)
  have 2: "map_of (concat (b # T)) k = map_of ((b # T) ! j) k"
    if "j < length (b # T)" "f k = j + off" for j k
  proof (cases j)
    case 0
    have "k \<notin> fst ` set (concat T)"
    proof
      assume "k \<in> fst ` set (concat T)"
      then obtain y where "y \<in> set (concat T)" "fst y = k" by auto
      then show False using ge that(2) 0 by fastforce
    qed
    then have "map_of (concat T) k = None" by (simp add: map_of_eq_None_iff)
    then show ?thesis using 0 by (simp add: map_add_def split: option.splits)
  next
    case (Suc j')
    have "k \<notin> fst ` set b"
    proof
      assume "k \<in> fst ` set b"
      then obtain y where "y \<in> set b" "fst y = k" by auto
      then show False using b(1) that(2) Suc by fastforce
    qed
    then have "map_of b k = None" by (simp add: map_of_eq_None_iff)
    moreover have "map_of (concat T) k = map_of (T ! j') k"
      by (rule look) (use that Suc in simp_all)
    ultimately show ?thesis using Suc by (simp add: map_add_def)
  qed
  have 3: "\<forall>a \<in> set (concat (b # T)). off \<le> f (fst a)"
  proof
    fix a assume "a \<in> set (concat (b # T))"
    then have "a \<in> set b \<or> a \<in> set (concat T)" by simp
    then show "off \<le> f (fst a)" using b(1) ge by fastforce
  qed
  from 1 2 3 show ?case by blast
qed

lemma old_entries_concat: "hash_inv h \<Longrightarrow> old_entries h = concat (table h)"
  using map_nth [of "table h"] by (simp add: old_entries_def hash_inv_def)

lemma old_entries_distinct:
  assumes "hash_inv h"
  shows "distinct (map fst (old_entries h))"
  using buckets_concat [of "table h" "bucket_index h" 0] assms
  by (simp add: old_entries_concat hash_inv_def)

lemma map_of_old_entries:
  assumes "hash_inv h"
  shows "map_of (old_entries h) = hash_map h"
proof (rule ext)
  fix k
  have "bucket_index h k < length (table h)" using assms by (simp add: hash_inv_def bucket_index_less)
  then show "map_of (old_entries h) k = hash_map h k"
    using buckets_concat [of "table h" "bucket_index h" 0] assms
    by (simp add: old_entries_concat hash_inv_def hash_map_def)
qed

lemma float_of_uint_thr: "float_of_uint LOAD_FACTOR_THR = 5"
proof -
  have e: "ilog2 5 = 2" by (rule ilog2_unique) simp_all
  have "f32_round 5 = 5"
    by (rule f32_round_exact [where m = "5 * 2 ^ 21"]) (simp_all add: e power_int_minus_divide)
  then show ?thesis by (simp add: float_of_uint_def LOAD_FACTOR_THR_def)
qed

lemma resize_capacity:
  assumes "hash_inv h" "float_of_uint LOAD_FACTOR_THR < hash_load_factor h"
  shows "(capacity h * 2) mod 2 ^ 32 = 2 * capacity h" "2 * capacity h < 2 ^ 32"
proof -
  have "capacity h < 2 ^ 31"
    by (rule load_factor_capacity_bound [of "num_elems h"])
       (use assms in \<open>simp_all add: float_of_uint_thr hash_load_factor_def hash_inv_def\<close>)
  then show "2 * capacity h < 2 ^ 32" by simp
  then show "(capacity h * 2) mod 2 ^ 32 = 2 * capacity h" by (simp add: mult.commute)
qed

section \<open>When the load factor test is exact\<close>

text \<open>
  A counter below \<open>2 ^ 24\<close> converts to binary32 without rounding, and a division by a power
  of two is exact, so for such tables the test \<^verbatim>\<open>_hash_load_factor(hash) > LOAD_FACTOR_THR\<close> is
  the comparison \<open>5 * capacity < num_elems\<close>. From \<open>2 ^ 24\<close> on the conversion rounds to an
  even number: at capacity \<open>2 ^ 22\<close> the count \<open>5 * 2 ^ 22 + 1\<close> becomes \<open>5 * 2 ^ 22\<close>.
\<close>

lemma f32_round_dyadic:
  assumes "0 < m" "m < 2 ^ 24"
  shows "f32_round (of_nat m / 2 ^ j) = of_nat m / 2 ^ j"
proof -
  define q :: rat where "q = of_nat m / 2 ^ j"
  have q: "0 < q" using assms(1) by (simp add: q_def)
  have "(of_nat m :: rat) < of_nat (2 ^ 24)" using assms(2) by (simp only: of_nat_less_iff)
  then have "q < 2 ^ 24 / 2 ^ j" by (simp add: q_def divide_strict_right_mono)
  also have "\<dots> = 2 powi (24 - int j)" by (simp add: power_int_diff)
  finally have "ilog2 q < 24 - int j" by (rule ilog2_less [OF q])
  define d where "d = nat (23 - ilog2 q - int j)"
  have d: "23 - ilog2 q - int j = int d" using \<open>ilog2 q < 24 - int j\<close> by (simp add: d_def)
  have "q / 2 powi (ilog2 q - 23) = of_nat m * (2 powi (23 - ilog2 q) / 2 ^ j)"
    by (simp add: q_def power_int_diff field_simps)
  also have "2 powi (23 - ilog2 q) / 2 ^ j = (2::rat) powi (23 - ilog2 q - int j)"
    by (simp add: power_int_diff [of 2 "23 - ilog2 q" "int j"])
  also have "\<dots> = 2 ^ d" by (simp add: d)
  finally have "q / 2 powi (ilog2 q - 23) = of_int (int m * 2 ^ d)" by simp
  then have "f32_round q = q" by (rule f32_round_exact [OF q])
  then show ?thesis by (simp add: q_def)
qed

lemma float_of_uint_exact: "n < 2 ^ 24 \<Longrightarrow> float_of_uint n = of_nat n"
  using f32_round_dyadic [of n 0] by (cases "n = 0") (simp_all add: float_of_uint_def f32_round_def)

lemma f32_round_pow2: "f32_round (2 powi e) = 2 powi e"
proof -
  have e: "ilog2 (2 powi e) = e" by (rule ilog2_unique) (simp_all add: power_int_add)
  have "(2::rat) powi e / 2 powi (ilog2 (2 powi e) - 23) = of_int (2 ^ 23)"
    by (simp add: e power_int_diff)
  then show ?thesis by (rule f32_round_exact [rotated]) simp
qed

lemma float_of_uint_pow2: "float_of_uint (2 ^ j) = 2 ^ j"
  using f32_round_pow2 [of "int j"] by (simp add: float_of_uint_def)

lemma load_factor_exact:
  assumes "capacity h = 2 ^ j" "num_elems h < 2 ^ 24"
  shows "float_of_uint LOAD_FACTOR_THR < hash_load_factor h \<longleftrightarrow> 5 * capacity h < num_elems h"
proof -
  have lf: "hash_load_factor h = of_nat (num_elems h) / 2 ^ j"
    using f32_round_dyadic [of "num_elems h" j] assms
    by (cases "num_elems h = 0")
       (simp_all add: hash_load_factor_def float_of_uint_exact float_of_uint_pow2 f32_round_def)
  have "(5 < (of_nat (num_elems h) :: rat) / 2 ^ j) = ((5::rat) * 2 ^ j < of_nat (num_elems h))"
    by (simp add: field_simps)
  also have "\<dots> = ((of_nat (5 * 2 ^ j) :: rat) < of_nat (num_elems h))" by simp
  also have "\<dots> = (5 * 2 ^ j < num_elems h)" by (simp only: of_nat_less_iff)
  finally show ?thesis by (simp add: lf float_of_uint_thr assms(1))
qed

lemma float_of_uint_tie:
  assumes "2 ^ 24 \<le> n" "n \<le> 20971521"
  shows "float_of_uint n \<le> 20971520"
proof -
  define q :: rat where "q = of_nat n"
  have "(of_nat (2 ^ 24) :: rat) \<le> of_nat n" "(of_nat n :: rat) \<le> of_nat 20971521"
    using assms by (simp_all only: of_nat_le_iff)
  then have b: "2 ^ 24 \<le> q" "q \<le> 20971521" by (simp_all add: q_def)
  then have q: "0 < q" by simp
  have e: "ilog2 q = 24" by (rule ilog2_unique [OF q]) (use b in simp_all)
  have "q / 2 \<le> of_int 10485760 + 1 / 2" using b by simp
  then have "round_half_even (q / 2) \<le> 10485760" by (rule round_half_even_tie_le) simp
  then have "(of_int (round_half_even (q / 2)) :: rat) \<le> of_int 10485760" by (simp only: of_int_le_iff)
  then have "f32_round q \<le> 20971520" using q by (simp add: f32_round_def e)
  then show ?thesis by (simp add: float_of_uint_def q_def)
qed

lemma load_factor_tie:
  assumes "capacity h = 2 ^ 22" "2 ^ 24 \<le> num_elems h" "num_elems h \<le> 20971521"
  shows "\<not> float_of_uint LOAD_FACTOR_THR < hash_load_factor h"
proof -
  have "float_of_uint (num_elems h) \<le> 20971520" by (rule float_of_uint_tie [OF assms(2,3)])
  moreover have "float_of_uint (capacity h) = 2 ^ 22"
    unfolding assms(1) by (rule float_of_uint_pow2)
  ultimately have "float_of_uint (num_elems h) / float_of_uint (capacity h) \<le> 5"
    by simp
  then have "hash_load_factor h \<le> 5" unfolding hash_load_factor_def by (rule f32_round_le_5)
  then show ?thesis by (simp add: float_of_uint_thr)
qed

section \<open>The element counter\<close>

text \<open>The counter agrees with the number of keys stored.\<close>

definition hash_cnt :: "'v hash \<Rightarrow> bool" where
  "hash_cnt h \<longleftrightarrow> num_elems h = card (dom (hash_map h))"

lemma hash_put_num_elems_eq:
  "num_elems (hash_put h key val) =
     (if key \<in> dom (hash_map h) then num_elems h else (num_elems h + 1) mod 2 ^ 32)"
proof (cases "chain_assign (table h ! bucket_index h key) key val")
  case None
  then have "key \<notin> dom (hash_map h)"
    by (simp add: chain_assign_None hash_map_def dom_def map_of_eq_None_iff)
  then show ?thesis using None by (simp add: hash_put_def Let_def)
next
  case (Some c)
  then have "key \<in> dom (hash_map h)"
    using chain_assign_Some [OF Some] by (auto simp: hash_map_def dom_def map_of_eq_None_iff)
  then show ?thesis using Some by (simp add: hash_put_def Let_def)
qed

lemma finite_dom_hash_map: "hash_inv h \<Longrightarrow> finite (dom (hash_map h))"
  using finite_dom_map_of [of "old_entries h"] by (simp add: map_of_old_entries)

lemma length_old_entries_card:
  assumes "hash_inv h"
  shows "length (old_entries h) = card (dom (hash_map h))"
proof -
  have "dom (hash_map h) = set (map fst (old_entries h))"
    using assms by (simp add: map_of_old_entries [symmetric] dom_map_of_conv_image_fst)
  then show ?thesis
    using distinct_card [OF old_entries_distinct [OF assms]] by simp
qed

lemma hash_put_cnt:
  assumes "hash_inv h" "hash_cnt h" "num_elems h + 1 < 2 ^ 32"
  shows "hash_cnt (hash_put h key val)"
proof -
  have "dom (hash_map (hash_put h key val)) = insert key (dom (hash_map h))"
    by (simp add: hash_put_map [OF assms(1)])
  then have "card (dom (hash_map (hash_put h key val))) =
      (if key \<in> dom (hash_map h) then card (dom (hash_map h)) else card (dom (hash_map h)) + 1)"
    using finite_dom_hash_map [OF assms(1)] by (simp add: insert_absorb)
  then show ?thesis
    using assms(2,3) by (simp add: hash_cnt_def hash_put_num_elems_eq)
qed

lemma hash_cnt_init: "0 < cap \<Longrightarrow> hash_cnt (hash_table_init h cap)"
  by (simp add: hash_cnt_def hash_map_init) (simp add: hash_table_init_def)


lemma hash_put_cnt_present:
  assumes "hash_inv h" "hash_cnt h" "key \<in> dom (hash_map h)"
  shows "hash_cnt (hash_put h key val)"
proof -
  have "dom (hash_map (hash_put h key val)) = dom (hash_map h)"
    using assms(3) by (auto simp: hash_put_map [OF assms(1)])
  then show ?thesis using assms(2,3) by (simp add: hash_cnt_def hash_put_num_elems_eq)
qed

section \<open>Tables as the library builds them\<close>

text \<open>
  Besides the representation invariant, a table that comes from \<open>hash_create\<close> through
  \<open>hash_insert\<close> has a counter that agrees with its keys, a capacity that is a power of two,
  and fewer than eight elements per bucket when an insertion returns: with eight, the load
  factor is above the threshold whatever the rounding.
\<close>

definition hash_wf :: "'v hash \<Rightarrow> bool" where
  "hash_wf h \<longleftrightarrow>
     hash_inv h \<and> hash_cnt h \<and> (\<exists>j. capacity h = 2 ^ j) \<and> num_elems h \<le> 8 * capacity h"

lemma f32_round_ge_pow2:
  assumes "2 powi e \<le> q"
  shows "2 powi e \<le> f32_round q"
proof -
  have pos: "0 < q" using assms by (rule less_le_trans [rotated]) simp
  have "(2::rat) powi e < 2 powi (ilog2 q + 1)"
    using assms ilog2_bounds(2) [OF pos] by (rule le_less_trans)
  have "e < ilog2 q + 1"
  proof (rule ccontr)
    assume "\<not> e < ilog2 q + 1"
    then have "(2::rat) powi (ilog2 q + 1) \<le> 2 powi e" by (intro power_int_increasing) simp_all
    with \<open>(2::rat) powi e < 2 powi (ilog2 q + 1)\<close> show False by simp
  qed
  then have "(2::rat) powi e \<le> 2 powi (ilog2 q)" by (intro power_int_increasing) simp_all
  also have "\<dots> \<le> f32_round q" by (rule f32_round_bounds(1) [OF pos])
  finally show ?thesis .
qed

lemma no_resize_sparse:
  assumes "capacity h = 2 ^ j" "num_elems h \<le> 4 * capacity h"
  shows "\<not> float_of_uint LOAD_FACTOR_THR < hash_load_factor h"
proof -
  have "(of_nat (num_elems h) :: rat) \<le> of_nat (4 * 2 ^ j)"
    using assms by (simp only: of_nat_le_iff)
  also have "\<dots> = 2 powi (int j + 2)" by (simp add: power_int_add)
  finally have "float_of_uint (num_elems h) \<le> 2 powi (int j + 2)"
    unfolding float_of_uint_def by (rule f32_round_le_pow2)
  then have "float_of_uint (num_elems h) \<le> 4 * 2 ^ j" by (simp add: power_int_add)
  moreover have "float_of_uint (capacity h) = 2 ^ j" unfolding assms(1) by (rule float_of_uint_pow2)
  ultimately have "float_of_uint (num_elems h) / float_of_uint (capacity h) \<le> 4"
    by (simp add: field_simps)
  then have "float_of_uint (num_elems h) / float_of_uint (capacity h) \<le> 5" by simp
  then have "hash_load_factor h \<le> 5" unfolding hash_load_factor_def by (rule f32_round_le_5)
  then show ?thesis by (simp add: float_of_uint_thr)
qed

lemma resize_dense:
  assumes "capacity h = 2 ^ j" "8 * capacity h \<le> num_elems h"
  shows "float_of_uint LOAD_FACTOR_THR < hash_load_factor h"
proof -
  have "(of_nat (8 * 2 ^ j) :: rat) \<le> of_nat (num_elems h)"
    using assms by (simp only: of_nat_le_iff)
  moreover have "(of_nat (8 * 2 ^ j) :: rat) = 2 powi (int j + 3)" by (simp add: power_int_add)
  ultimately have "2 powi (int j + 3) \<le> float_of_uint (num_elems h)"
    unfolding float_of_uint_def by (intro f32_round_ge_pow2) simp
  then have "8 * 2 ^ j \<le> float_of_uint (num_elems h)" by (simp add: power_int_add)
  moreover have "float_of_uint (capacity h) = 2 ^ j" unfolding assms(1) by (rule float_of_uint_pow2)
  ultimately have "2 powi 3 \<le> float_of_uint (num_elems h) / float_of_uint (capacity h)"
    by (simp add: field_simps)
  then have "2 powi 3 \<le> hash_load_factor h" unfolding hash_load_factor_def by (rule f32_round_ge_pow2)
  then show ?thesis by (simp add: float_of_uint_thr)
qed

text \<open>
  The table after the assignments of \<open>hash_insert\<close> alone, for a list of associations, and the
  table \<open>_hash_resize\<close> builds when none of its re-insertions resizes again.
\<close>

definition put_all :: "'v hash \<Rightarrow> 'v association list \<Rightarrow> 'v hash" where
  "put_all = foldl (\<lambda>h cur. hash_put h (fst cur) (snd cur))"

definition doubled :: "'v hash \<Rightarrow> 'v hash" where
  "doubled h = put_all (hash_table_init h (2 * capacity h)) (old_entries h)"

lemma put_all_simps [simp]:
  "put_all h [] = h"
  "put_all h (cur # rest) = put_all (hash_put h (fst cur) (snd cur)) rest"
  by (simp_all add: put_all_def)

lemma put_all_capacity [simp]: "capacity (put_all g es) = capacity g"
  by (induction es arbitrary: g) simp_all

lemma put_all_inv: "hash_inv g \<Longrightarrow> hash_inv (put_all g es)"
  by (induction es arbitrary: g) (simp_all add: hash_put_inv)

lemma put_all_map: "hash_inv g \<Longrightarrow> hash_map (put_all g es) = hash_map g ++ map_of (rev es)"
proof (induction es arbitrary: g)
  case Nil
  show ?case by simp
next
  case (Cons cur es)
  obtain k v where cur: "cur = (k, v)" by (cases cur)
  have "hash_map (put_all (hash_put g k v) es) = hash_map (hash_put g k v) ++ map_of (rev es)"
    by (rule Cons.IH) (rule hash_put_inv [OF Cons.prems])
  also have "hash_map (hash_put g k v) = (hash_map g)(k \<mapsto> v)" by (rule hash_put_map [OF Cons.prems])
  also have "(hash_map g)(k \<mapsto> v) ++ map_of (rev es) = hash_map g ++ map_of (rev ((k, v) # es))"
    by simp
  finally show ?case by (simp add: cur)
qed

lemma put_all_cnt:
  assumes "hash_inv g" "hash_cnt g" "num_elems g + length es < 2 ^ 32"
  shows "hash_cnt (put_all g es) \<and> num_elems (put_all g es) \<le> num_elems g + length es"
  using assms
proof (induction es arbitrary: g)
  case Nil
  then show ?case by simp
next
  case (Cons cur es)
  let ?g = "hash_put g (fst cur) (snd cur)"
  have n: "num_elems ?g \<le> num_elems g + 1" by (rule hash_put_num_elems)
  have "hash_cnt (put_all ?g es) \<and> num_elems (put_all ?g es) \<le> num_elems ?g + length es"
  proof (rule Cons.IH)
    show "hash_inv ?g" by (rule hash_put_inv) fact
    show "hash_cnt ?g" by (rule hash_put_cnt) (use Cons.prems in simp_all)
    show "num_elems ?g + length es < 2 ^ 32" using n Cons.prems(3) by simp
  qed
  then show ?case using n by simp
qed

section \<open>What a call frees\<close>

text \<open>The non-null values of a list of associations, in order.\<close>

definition stored :: "'v association list \<Rightarrow> 'v list" where
  "stored es = List.map_filter snd es"

lemma stored_simps [simp]:
  "stored [] = []"
  "stored ((k, None) # es) = stored es"
  "stored ((k, Some p) # es) = p # stored es"
  by (simp_all add: stored_def List.map_filter_simps)

lemma set_stored: "set (stored es) = {p. \<exists>k. (k, Some p) \<in> set es}"
proof (induction es)
  case Nil
  show ?case by simp
next
  case (Cons cur es)
  obtain k v where cur: "cur = (k, v)" by (cases cur)
  show ?case using Cons by (cases v) (auto simp: cur)
qed
lemma free_Inr: "free p m = Inr m' \<Longrightarrow> m' \<subseteq> m"
  by (auto simp: free_def split: option.splits if_splits)

lemma free_all_null: "\<forall>cur \<in> set es. snd cur = None \<Longrightarrow> free_all es m = Inr m"
  by (induction es arbitrary: m) (simp_all add: association_free_def free_def)

lemma free_all_stored:
  "distinct (stored es) \<Longrightarrow> set (stored es) \<subseteq> m \<Longrightarrow> free_all es m = Inr (m - set (stored es))"
proof (induction es arbitrary: m)
  case Nil
  show ?case by simp
next
  case (Cons cur es)
  obtain k v where cur: "cur = (k, v)" by (cases cur)
  show ?case
  proof (cases v)
    case None
    with Cons show ?thesis by (simp add: cur association_free_def free_def)
  next
    case (Some p)
    have "free_all es (m - {p}) = Inr (m - {p} - set (stored es))"
      by (rule Cons.IH) (use Cons.prems in \<open>auto simp: cur Some\<close>)
    moreover have "m - {p} - set (stored es) = m - set (stored (cur # es))"
      by (auto simp: cur Some)
    ultimately show ?thesis using Cons.prems by (simp add: cur Some association_free_def free_def)
  qed
qed

lemma free_all_dead:
  "(k, Some p) \<in> set es \<Longrightarrow> p \<notin> m \<Longrightarrow> \<exists>q. free_all es m = Inl (Invalid_free q)"
proof (induction es arbitrary: m)
  case Nil
  then show ?case by simp
next
  case (Cons cur es)
  show ?case
  proof (cases "association_free cur m")
    case (Inl f)
    then obtain q where "f = Invalid_free q"
      by (auto simp: association_free_def free_def split: option.splits if_splits)
    then show ?thesis using Inl by simp
  next
    case (Inr m')
    then have sub: "m' \<subseteq> m" unfolding association_free_def by (rule free_Inr)
    have "cur \<noteq> (k, Some p)"
      using Inr Cons.prems(2) by (auto simp: association_free_def free_def)
    then have "(k, Some p) \<in> set es" using Cons.prems(1) by auto
    moreover have "p \<notin> m'" using sub Cons.prems(2) by auto
    ultimately have "\<exists>q. free_all es m' = Inl (Invalid_free q)" by (rule Cons.IH)
    then show ?thesis by (simp add: Inr)
  qed
qed

text \<open>
  While the new table stays sparse, no re-insertion of \<open>_hash_resize\<close> resizes again, as its
  comment says, and the loop assigns and frees in turn.
\<close>

lemma rehash_put_all:
  assumes "capacity g = 2 ^ j" "num_elems g + length es \<le> 4 * capacity g"
  shows "rehash es g m =
    (case free_all es m of Inl f \<Rightarrow> Inl f | Inr m' \<Rightarrow> Inr (put_all g es, m'))"
  using assms
proof (induction es arbitrary: g m)
  case Nil
  show ?case by simp
next
  case (Cons cur es)
  let ?g = "hash_put g (fst cur) (snd cur)"
  have "\<not> float_of_uint LOAD_FACTOR_THR < hash_load_factor g"
    by (rule no_resize_sparse [OF Cons.prems(1)]) (use Cons.prems(2) in simp)
  then have i: "hash_insert g (fst cur) (snd cur) m = Inr (?g, m)" by (simp add: hash_insert.simps)
  show ?case
  proof (cases "association_free cur m")
    case (Inl f)
    then show ?thesis by (simp add: i)
  next
    case (Inr m')
    have n: "num_elems ?g \<le> num_elems g + 1" by (rule hash_put_num_elems)
    have "rehash es ?g m' =
      (case free_all es m' of Inl f \<Rightarrow> Inl f | Inr m'' \<Rightarrow> Inr (put_all ?g es, m''))"
      by (rule Cons.IH) (use Cons.prems n in simp_all)
    then show ?thesis by (simp add: i Inr split: sum.splits)
  qed
qed

lemma hash_wfD:
  assumes "hash_wf h"
  shows "hash_inv h" "hash_cnt h" "\<exists>j. capacity h = 2 ^ j" "num_elems h \<le> 8 * capacity h"
  using assms by (simp_all add: hash_wf_def)

lemma length_old_entries_wf: "hash_wf h \<Longrightarrow> length (old_entries h) = num_elems h"
  by (simp add: hash_wf_def length_old_entries_card hash_cnt_def)

lemma doubled_facts:
  assumes "hash_wf h" "2 * capacity h < 2 ^ 32"
  shows "hash_inv (doubled h)" "hash_map (doubled h) = hash_map h"
    "capacity (doubled h) = 2 * capacity h" "hash_cnt (doubled h)" "num_elems (doubled h) = num_elems h"
proof -
  note wf = hash_wfD [OF assms(1)]
  let ?g = "hash_table_init h (2 * capacity h)"
  have pos: "0 < 2 * capacity h" using wf(1) by (simp add: hash_inv_def)
  have i: "hash_inv ?g" by (rule hash_inv_init) (use pos assms(2) in simp_all)
  show inv: "hash_inv (doubled h)" unfolding doubled_def by (rule put_all_inv [OF i])
  have "map_of (rev (old_entries h)) = hash_map h"
    using wf(1) by (simp add: map_of_rev_distinct old_entries_distinct map_of_old_entries)
  then show m: "hash_map (doubled h) = hash_map h"
    unfolding doubled_def using pos by (simp add: put_all_map [OF i] hash_map_init)
  show "capacity (doubled h) = 2 * capacity h" by (simp add: doubled_def hash_table_init_def)
  have "num_elems h < 2 ^ 32" using wf(1) by (simp add: hash_inv_def)
  then have "num_elems ?g + length (old_entries h) < 2 ^ 32"
    by (simp add: length_old_entries_wf [OF assms(1)] hash_table_init_def)
  from put_all_cnt [OF i hash_cnt_init [OF pos] this]
  show c: "hash_cnt (doubled h)" by (simp add: doubled_def)
  show "num_elems (doubled h) = num_elems h"
    using c wf(2) by (simp only: hash_cnt_def m)
qed

lemma hash_resize_wf:
  assumes "hash_wf h" "float_of_uint LOAD_FACTOR_THR < hash_load_factor h"
  shows "hash_resize h m =
    (case free_all (old_entries h) m of Inl f \<Rightarrow> Inl f | Inr m' \<Rightarrow> Inr (doubled h, m'))"
proof -
  note wf = hash_wfD [OF assms(1)]
  note cap = resize_capacity [OF wf(1) assms(2)]
  from wf(3) obtain j where j: "capacity h = 2 ^ j" ..
  let ?g = "hash_table_init h (2 * capacity h)"
  have "rehash (old_entries h) ?g m =
    (case free_all (old_entries h) m of Inl f \<Rightarrow> Inl f | Inr m' \<Rightarrow> Inr (put_all ?g (old_entries h), m'))"
  proof (rule rehash_put_all)
    show "capacity ?g = 2 ^ Suc j" by (simp add: hash_table_init_def j)
    show "num_elems ?g + length (old_entries h) \<le> 4 * capacity ?g"
      using wf(4) by (simp add: length_old_entries_wf [OF assms(1)] hash_table_init_def)
  qed
  then show ?thesis unfolding hash_resize.simps cap(1) doubled_def .
qed

text \<open>
  \<open>hash_insert\<close> on such a table: below the threshold the assignment alone; above it every
  stored value is freed, in the order of the buckets, the table is rebuilt with twice the
  capacity, and the assignment follows.
\<close>

lemma hash_insert_wf:
  assumes "hash_wf h"
  shows "hash_insert h key val m =
    (if float_of_uint LOAD_FACTOR_THR < hash_load_factor h
     then (case free_all (old_entries h) m of Inl f \<Rightarrow> Inl f
           | Inr m' \<Rightarrow> Inr (hash_put (doubled h) key val, m'))
     else Inr (hash_put h key val, m))"
  by (simp add: hash_insert.simps hash_resize_wf [OF assms] split: sum.splits)

lemma hash_wf_create: "hash_wf hash_create"
proof -
  have "capacity (hash_create :: 'a hash) = 2 ^ 7"
    by (simp add: hash_create_def hash_table_init_def INITIAL_CAPACITY_def)
  moreover have "hash_cnt (hash_create :: 'a hash)"
    unfolding hash_create_def by (rule hash_cnt_init) (simp add: INITIAL_CAPACITY_def)
  moreover have "num_elems (hash_create :: 'a hash) = 0"
    by (simp add: hash_create_def hash_table_init_def)
  ultimately show ?thesis unfolding hash_wf_def using hash_inv_create by (intro conjI exI [of _ 7]) simp_all
qed

lemma hash_put_wf:
  assumes "hash_wf h" "num_elems h < 8 * capacity h" "num_elems h + 1 < 2 ^ 32"
  shows "hash_wf (hash_put h key val)"
proof -
  note wf = hash_wfD [OF assms(1)]
  have "num_elems (hash_put h key val) \<le> num_elems h + 1" by (rule hash_put_num_elems)
  then have "num_elems (hash_put h key val) \<le> 8 * capacity (hash_put h key val)"
    using assms(2) by simp
  moreover have "hash_cnt (hash_put h key val)" by (rule hash_put_cnt) (use wf assms(3) in simp_all)
  ultimately show ?thesis
    unfolding hash_wf_def using wf(3) hash_put_inv [OF wf(1)] by simp
qed

lemma hash_insert_returns:
  assumes "hash_wf h" "num_elems h + 1 < 2 ^ 32" "hash_insert h key val m = Inr (h', m')"
  shows "hash_wf h'" "hash_map h' = (hash_map h)(key \<mapsto> val)" "m' \<subseteq> m"
    "capacity h' = (if float_of_uint LOAD_FACTOR_THR < hash_load_factor h then 2 * capacity h
                    else capacity h)"
    "\<not> float_of_uint LOAD_FACTOR_THR < hash_load_factor h \<Longrightarrow> h' = hash_put h key val \<and> m' = m"
proof -
  note wf = hash_wfD [OF assms(1)]
  from wf(3) obtain j where j: "capacity h = 2 ^ j" ..
  have r: "hash_wf h' \<and> hash_map h' = (hash_map h)(key \<mapsto> val) \<and> m' \<subseteq> m \<and>
    capacity h' = (if float_of_uint LOAD_FACTOR_THR < hash_load_factor h then 2 * capacity h
                    else capacity h) \<and>
    (\<not> float_of_uint LOAD_FACTOR_THR < hash_load_factor h \<longrightarrow> h' = hash_put h key val \<and> m' = m)"
  proof (cases "float_of_uint LOAD_FACTOR_THR < hash_load_factor h")
    case True
    note cap = resize_capacity [OF wf(1) True]
    note d = doubled_facts [OF assms(1) cap(2)]
    from assms(3) True obtain mf where
      f: "free_all (old_entries h) m = Inr mf" and h': "h' = hash_put (doubled h) key val" and m': "m' = mf"
      by (auto simp: hash_insert_wf [OF assms(1)] split: sum.splits)
    have dwf: "hash_wf (doubled h)"
      unfolding hash_wf_def using d wf(4) by (intro conjI exI [of _ "Suc j"]) (simp_all add: j)
    have "hash_wf h'" unfolding h'
    proof (rule hash_put_wf [OF dwf])
      have "0 < capacity h" using wf(1) by (simp add: hash_inv_def)
      then show "num_elems (doubled h) < 8 * capacity (doubled h)" using wf(4) by (simp add: d)
      show "num_elems (doubled h) + 1 < 2 ^ 32" using assms(2) by (simp add: d)
    qed
    moreover have "hash_map h' = (hash_map h)(key \<mapsto> val)"
      unfolding h' by (simp only: hash_put_map [OF d(1)] d(2))
    moreover have "m' \<subseteq> m"
    proof
      fix x assume "x \<in> m'"
      have "free_all es n = Inr n' \<Longrightarrow> n' \<subseteq> n" for es :: "'a association list" and n n'
      proof (induction es arbitrary: n)
        case Nil
        then show ?case by simp
      next
        case (Cons cur es)
        then show ?case
          by (auto simp: association_free_def split: sum.splits dest!: free_Inr)
      qed
      from this [OF f] \<open>x \<in> m'\<close> show "x \<in> m" by (auto simp: m')
    qed
    moreover have "capacity h' = 2 * capacity h" by (simp add: h' d)
    ultimately show ?thesis using True by simp
  next
    case False
    with assms(3) have e: "h' = hash_put h key val" "m' = m"
      by (simp_all add: hash_insert_wf [OF assms(1)])
    have "num_elems h < 8 * capacity h"
      using resize_dense [OF j] False by (cases "8 * capacity h \<le> num_elems h") simp_all
    then have "hash_wf h'" unfolding e by (rule hash_put_wf [OF assms(1) _ assms(2)])
    then show ?thesis using False e by (simp add: hash_put_map [OF wf(1)])
  qed
  then show "hash_wf h'" "hash_map h' = (hash_map h)(key \<mapsto> val)" "m' \<subseteq> m"
    "capacity h' = (if float_of_uint LOAD_FACTOR_THR < hash_load_factor h then 2 * capacity h
                    else capacity h)"
    "\<not> float_of_uint LOAD_FACTOR_THR < hash_load_factor h \<Longrightarrow> h' = hash_put h key val \<and> m' = m"
    by simp_all
qed

section \<open>Sequences of insertions\<close>

text \<open>
  A client that calls \<open>hash_insert\<close> once for every (key, value) of a list, in order.
\<close>

fun hash_insert_seq ::
  "'v hash \<Rightarrow> (string \<times> 'v option) list \<Rightarrow> 'v heap \<Rightarrow> 'v fault + 'v hash \<times> 'v heap" where
  "hash_insert_seq h [] m = Inr (h, m)"
| "hash_insert_seq h ((key, val) # ops) m =
     (case hash_insert h key val m of Inl f \<Rightarrow> Inl f
      | Inr (h', m') \<Rightarrow> hash_insert_seq h' ops m')"

lemma hash_insert_seq_snoc:
  "hash_insert_seq h (ops @ [(key, val)]) m =
     (case hash_insert_seq h ops m of Inl f \<Rightarrow> Inl f | Inr (h', m') \<Rightarrow> hash_insert h' key val m')"
  by (induction h ops m rule: hash_insert_seq.induct) (simp_all split: sum.splits)

lemma hash_map_create: "hash_map hash_create = Map.empty"
  by (simp add: hash_create_def hash_map_init INITIAL_CAPACITY_def)

lemma hash_create_fields: "capacity hash_create = 2 ^ 7" "num_elems hash_create = 0"
  by (simp_all add: hash_create_def hash_table_init_def INITIAL_CAPACITY_def)

lemma old_entries_set:
  assumes "hash_inv h"
  shows "(k, v) \<in> set (old_entries h) \<longleftrightarrow> hash_map h k = Some v"
  using map_of_eq_Some_iff [OF old_entries_distinct [OF assms], of k v]
  by (simp add: map_of_old_entries [OF assms])

section \<open>Iterators\<close>

text \<open>
  \<^verbatim>\<open>struct hash_iter { struct hash* hash; struct association* next; int next_idx; }\<close>.
  \<open>it_next\<close> is the chain from the node the iterator points to (\<open>[]\<close> for \<^verbatim>\<open>NULL\<close>),
  \<open>it_hash\<close> the table the iterator refers to, which no iterator operation writes.
\<close>

record 'v hash_iter =
  it_hash :: "'v hash"
  it_next :: "'v association list"
  it_next_idx :: int

text \<open>
  The search loop of \<open>_update_hash_iter_next\<close>:
  \<^verbatim>\<open>while (i < iter->hash->capacity && iter->hash->table[i] == NULL) i++;\<close>
\<close>

function scan_buckets :: "'v hash \<Rightarrow> nat \<Rightarrow> nat" where
  "scan_buckets h i = (if i < capacity h \<and> table h ! i = [] then scan_buckets h (i + 1) else i)"
  by pat_completeness auto
termination scan_buckets
  by (relation "measure (\<lambda>(h, i). capacity h - i)") auto

declare scan_buckets.simps [simp del]

definition update_hash_iter_next :: "'v hash_iter \<Rightarrow> 'v hash_iter" where
  "update_hash_iter_next iter =
     (let iter1 = (if it_next iter \<noteq> [] then iter\<lparr>it_next := tl (it_next iter)\<rparr> else iter) in
      if it_next iter1 = [] then
        (let i = scan_buckets (it_hash iter1) (nat (it_next_idx iter1 + 1)) in
         if i < capacity (it_hash iter1)
         then iter1\<lparr>it_next_idx := int i, it_next := table (it_hash iter1) ! i\<rparr>
         else iter1)
      else iter1)"

definition hash_iter_create :: "'v hash \<Rightarrow> 'v hash_iter" where
  "hash_iter_create h = update_hash_iter_next \<lparr>it_hash = h, it_next = [], it_next_idx = - 1\<rparr>"

definition hash_iter_has_next :: "'v hash_iter \<Rightarrow> bool" where
  "hash_iter_has_next iter \<longleftrightarrow> it_next iter \<noteq> []"

text \<open>
  \<open>hash_iter_next\<close> asserts \<^verbatim>\<open>iter->next\<close>; the failed assertion is \<open>None\<close>. Otherwise it
  yields the key and value of the current association and the advanced iterator.
\<close>

definition hash_iter_next :: "'v hash_iter \<Rightarrow> ('v association \<times> 'v hash_iter) option" where
  "hash_iter_next iter =
     (case it_next iter of
        [] \<Rightarrow> None
      | cur # rest \<Rightarrow> Some (cur, update_hash_iter_next iter))"

text \<open>What an iterator has still to deliver: the rest of its chain, then the later buckets.\<close>

definition buckets_from :: "'v hash \<Rightarrow> nat \<Rightarrow> 'v association list" where
  "buckets_from h i = concat (map ((!) (table h)) [i..<capacity h])"

definition iter_remaining :: "'v hash_iter \<Rightarrow> 'v association list" where
  "iter_remaining iter = it_next iter @ buckets_from (it_hash iter) (nat (it_next_idx iter + 1))"

lemma buckets_from_step:
  "i < capacity h \<Longrightarrow> buckets_from h i = table h ! i @ buckets_from h (Suc i)"
  by (simp add: buckets_from_def upt_conv_Cons)

lemma buckets_from_beyond: "capacity h \<le> i \<Longrightarrow> buckets_from h i = []"
  by (simp add: buckets_from_def)

lemma buckets_from_scan: "buckets_from h (scan_buckets h i) = buckets_from h i"
proof (induction h i rule: scan_buckets.induct)
  case (1 h i)
  show ?case
  proof (cases "i < capacity h \<and> table h ! i = []")
    case True
    then have "scan_buckets h i = scan_buckets h (i + 1)" by (subst scan_buckets.simps) simp
    then show ?thesis using 1 True by (simp add: buckets_from_step)
  next
    case False
    then have "scan_buckets h i = i" by (subst scan_buckets.simps) auto
    then show ?thesis by simp
  qed
qed

lemma scan_buckets_stops:
  "scan_buckets h i < capacity h \<Longrightarrow> table h ! scan_buckets h i \<noteq> []"
proof (induction h i rule: scan_buckets.induct)
  case (1 h i)
  show ?case
  proof (cases "i < capacity h \<and> table h ! i = []")
    case True
    then have "scan_buckets h i = scan_buckets h (i + 1)" by (subst scan_buckets.simps) simp
    then show ?thesis using 1 True by simp
  next
    case False
    then have "scan_buckets h i = i" by (subst scan_buckets.simps) auto
    then show ?thesis using False "1.prems" by simp
  qed
qed

lemma update_hash [simp]: "it_hash (update_hash_iter_next iter) = it_hash iter"
  by (simp add: update_hash_iter_next_def Let_def)

lemma scan_fill:
  fixes h :: "'v hash"
  defines [simp]: "j \<equiv> \<lambda>i. scan_buckets h i"
  shows "(if j i < capacity h then table h ! j i else []) @
     buckets_from h (if j i < capacity h then Suc (j i) else i) = buckets_from h i"
proof (cases "j i < capacity h")
  case True
  then show ?thesis
    using buckets_from_step [of "j i" h] buckets_from_scan [of h i] by simp
next
  case False
  then have "buckets_from h (j i) = []" by (simp add: buckets_from_beyond)
  then have "buckets_from h i = []" using buckets_from_scan [of h i] by simp
  then show ?thesis using False by simp
qed

lemma iter_remaining_update:
  assumes "it_next iter = a # c"
  shows "iter_remaining iter = a # iter_remaining (update_hash_iter_next iter)"
proof (cases c)
  case Nil
  define h where "h = it_hash iter"
  define i where "i = nat (it_next_idx iter + 1)"
  define j where "j = scan_buckets h i"
  show ?thesis
  proof (cases "j < capacity h")
    case True
    have "buckets_from h i = table h ! j @ buckets_from h (Suc j)"
      using buckets_from_step [OF True] buckets_from_scan [of h i] by (simp add: j_def)
    moreover have "nat (int j + 1) = Suc j" by simp
    ultimately show ?thesis
      using assms Nil True
      by (simp add: iter_remaining_def update_hash_iter_next_def Let_def h_def i_def j_def)
  next
    case False
    then show ?thesis
      using assms Nil
      by (simp add: iter_remaining_def update_hash_iter_next_def Let_def h_def i_def j_def)
  qed
next
  case (Cons b c')
  then show ?thesis
    using assms by (simp add: iter_remaining_def update_hash_iter_next_def Let_def)
qed

text \<open>
  The loop of the emitter:
  \<^verbatim>\<open>while (hash_iter_has_next(iter)) { ... hash_iter_next(iter, &key) ... }\<close>, collecting what
  each call returns.
\<close>

function hash_iter_drain :: "'v hash_iter \<Rightarrow> 'v association list" where
  "hash_iter_drain iter =
     (if hash_iter_has_next iter
      then (case hash_iter_next iter of
              Some (cur, iter') \<Rightarrow> cur # hash_iter_drain iter'
            | None \<Rightarrow> [])
      else [])"
  by pat_completeness auto
termination hash_iter_drain
proof (relation "measure (\<lambda>iter. length (iter_remaining iter))", goal_cases)
  case 1
  show ?case by simp
next
  case (2 iter x cur iter')
  then obtain c where "it_next iter = cur # c" "iter' = update_hash_iter_next iter"
    by (auto simp: hash_iter_next_def split: list.splits)
  then show ?case using iter_remaining_update [of iter cur c] by simp
qed

declare hash_iter_drain.simps [simp del]

definition iter_settled :: "'v hash_iter \<Rightarrow> bool" where
  "iter_settled iter \<longleftrightarrow>
     (it_next iter = [] \<longrightarrow> buckets_from (it_hash iter) (nat (it_next_idx iter + 1)) = [])"

lemma update_settled: "iter_settled (update_hash_iter_next iter)"
proof -
  define iter1 where "iter1 = (if it_next iter \<noteq> [] then iter\<lparr>it_next := tl (it_next iter)\<rparr> else iter)"
  define h where "h = it_hash iter1"
  define i where "i = nat (it_next_idx iter1 + 1)"
  define j where "j = scan_buckets h i"
  have u: "update_hash_iter_next iter =
    (if it_next iter1 = [] then
       if j < capacity h then iter1\<lparr>it_next_idx := int j, it_next := table h ! j\<rparr> else iter1
     else iter1)"
    by (simp add: update_hash_iter_next_def Let_def iter1_def h_def i_def j_def)
  show ?thesis
  proof (cases "it_next iter1 = []")
    case False
    then show ?thesis by (simp add: u iter_settled_def)
  next
    case True
    show ?thesis
    proof (cases "j < capacity h")
      case jc: True
      have "table h ! j \<noteq> []" using jc scan_buckets_stops [of h i] by (simp add: j_def)
      then show ?thesis using True jc by (simp add: u iter_settled_def)
    next
      case False
      then have "buckets_from h j = []" by (simp add: buckets_from_beyond)
      then have "buckets_from h i = []" using buckets_from_scan [of h i] by (simp add: j_def)
      then show ?thesis using True False by (simp add: u iter_settled_def h_def i_def)
    qed
  qed
qed


lemma hash_iter_drain_remaining:
  "iter_settled iter \<Longrightarrow> hash_iter_drain iter = iter_remaining iter"
proof (induction iter rule: hash_iter_drain.induct)
  case (1 iter)
  show ?case
  proof (cases "it_next iter")
    case Nil
    then show ?thesis
      using "1.prems"
      by (subst hash_iter_drain.simps) (simp add: hash_iter_has_next_def iter_settled_def iter_remaining_def)
  next
    case (Cons a c)
    have n: "hash_iter_next iter = Some (a, update_hash_iter_next iter)"
      by (simp add: hash_iter_next_def Cons)
    have hn: "hash_iter_has_next iter" by (simp add: hash_iter_has_next_def Cons)
    have "hash_iter_drain (update_hash_iter_next iter) = iter_remaining (update_hash_iter_next iter)"
      by (rule "1.IH" [OF hn n refl update_settled])
    then show ?thesis
      using iter_remaining_update [OF Cons]
      by (subst hash_iter_drain.simps) (simp add: hn n)
  qed
qed

lemma hash_iter_create_remaining: "iter_remaining (hash_iter_create h) = old_entries h"
proof -
  let ?i0 = "\<lparr>it_hash = h, it_next = [], it_next_idx = - 1\<rparr>"
  define j where "j = scan_buckets h 0"
  have "iter_remaining (update_hash_iter_next ?i0) = buckets_from h 0"
  proof (cases "j < capacity h")
    case True
    have "buckets_from h 0 = table h ! j @ buckets_from h (Suc j)"
      using buckets_from_step [OF True] buckets_from_scan [of h 0] by (simp add: j_def)
    moreover have "nat (int j + 1) = Suc j" by simp
    ultimately show ?thesis
      using True by (simp add: iter_remaining_def update_hash_iter_next_def Let_def j_def)
  next
    case False
    then show ?thesis
      by (simp add: iter_remaining_def update_hash_iter_next_def Let_def j_def)
  qed
  then show ?thesis by (simp add: hash_iter_create_def buckets_from_def old_entries_def)
qed

lemma hash_iter_drain_create: "hash_iter_drain (hash_iter_create h) = old_entries h"
proof -
  have "iter_settled (hash_iter_create h)"
    unfolding hash_iter_create_def by (rule update_settled)
  then show ?thesis by (simp only: hash_iter_drain_remaining hash_iter_create_remaining)
qed

text \<open>
  C9. Draining a freshly created iterator visits the buckets in ascending index order and each
  chain from its head, so the sequence is a function of the table alone: two passes over the same
  table give the same keys in the same order. The iterator only reads the table; the table it
  refers to is the one it was created on.
\<close>

theorem hash_iter_drain_order:
  "hash_iter_drain (hash_iter_create h) = concat (map ((!) (table h)) [0..<capacity h]) \<and>
   map fst (hash_iter_drain (hash_iter_create h)) =
     concat (map (\<lambda>i. map fst (table h ! i)) [0..<capacity h]) \<and>
   it_hash (hash_iter_create h) = h"
proof -
  have 1: "hash_iter_drain (hash_iter_create h) = concat (map ((!) (table h)) [0..<capacity h])"
    by (simp only: hash_iter_drain_create old_entries_def)
  have 2: "map fst (concat (map ((!) (table h)) [0..<capacity h])) =
      concat (map (\<lambda>i. map fst (table h ! i)) [0..<capacity h])"
    by (simp add: map_concat comp_def)
  have 3: "it_hash (hash_iter_create h) = h" by (simp add: hash_iter_create_def)
  from 1 2 3 show ?thesis by simp
qed


section \<open>Insertions of numbered keys\<close>

text \<open>
  Distinct keys for concrete runs: \<open>k\<close> followed by the binary digits of a number, least
  significant first. In \<open>numbered_ops\<close> each is inserted with a null value.
\<close>

fun nat_key :: "nat \<Rightarrow> string" where
  "nat_key n = (if n = 0 then [] else (if even n then CHR ''0'' else CHR ''1'') # nat_key (n div 2))"

declare nat_key.simps [simp del]

definition numbered_ops :: "nat \<Rightarrow> (string \<times> 'v option) list" where
  "numbered_ops m = map (\<lambda>i. (CHR ''k'' # nat_key i, None)) [0..<m]"

lemma nat_key_inj: "nat_key n = nat_key m \<Longrightarrow> n = m"
proof (induction n arbitrary: m rule: nat_key.induct)
  case (1 n)
  show ?case
  proof (cases "n = 0")
    case True
    then show ?thesis using "1.prems" by (cases "m = 0") (simp_all add: nat_key.simps [of m] nat_key.simps [of 0])
  next
    case False
    have "nat_key n \<noteq> []" using False by (simp add: nat_key.simps [of n])
    then have "nat_key m \<noteq> []" using "1.prems" by simp
    have m: "m \<noteq> 0"
    proof
      assume "m = 0"
      then have "nat_key m = []" by (simp add: nat_key.simps [of 0])
      then show False using \<open>nat_key m \<noteq> []\<close> by simp
    qed
    from "1.prems" False m have "even n = even m" "nat_key (n div 2) = nat_key (m div 2)"
      by (auto simp: nat_key.simps [of n] nat_key.simps [of m] split: if_splits)
    then have "even n = even m" "n div 2 = m div 2" using "1.IH" [OF False] by simp_all
    then show ?thesis by (metis dvd_mult_div_cancel odd_two_times_div_two_succ)
  qed
qed

text \<open>
  The capacity after \<open>m\<close> distinct keys: while the test is exact, the least doubling of 128
  whose fivefold is at least \<open>m - 1\<close>; from \<open>2 ^ 24\<close> keys up to \<open>5 * 2 ^ 22 + 2\<close> it stays
  \<open>2 ^ 22\<close>.
\<close>

definition cap_inv :: "nat \<Rightarrow> nat \<Rightarrow> bool" where
  "cap_inv m c \<longleftrightarrow>
     (m \<le> 2 ^ 24 \<and> (\<exists>j. c = 2 ^ j \<and> 7 \<le> j \<and> m \<le> 5 * c + 1 \<and> (7 < j \<longrightarrow> 5 * 2 ^ (j - 1) + 1 < m))) \<or>
     (2 ^ 24 \<le> m \<and> c = 2 ^ 22)"

lemma cap_inv_full:
  assumes "cap_inv (2 ^ 24) c"
  shows "c = 2 ^ 22"
proof -
  from assms consider j where "c = 2 ^ j" "7 \<le> j" "2 ^ 24 \<le> 5 * c + 1" "7 < j \<longrightarrow> 5 * 2 ^ (j - 1) + 1 < (2 ^ 24 :: nat)"
    | "c = 2 ^ 22" by (auto simp: cap_inv_def)
  then show ?thesis
  proof cases
    case 1
    have "\<not> j \<le> 21"
    proof
      assume "j \<le> 21"
      then have "(2::nat) ^ j \<le> 2 ^ 21" by (intro power_increasing) simp_all
      then show False using 1(1,3) by simp
    qed
    moreover have "\<not> 23 \<le> j"
    proof
      assume "23 \<le> j"
      then have "(2::nat) ^ 22 \<le> 2 ^ (j - 1)" by (intro power_increasing) simp_all
      then show False using 1(4) \<open>23 \<le> j\<close> by simp
    qed
    ultimately have "j = 22" by simp
    then show ?thesis using 1(1) by simp
  next
    case 2
    then show ?thesis .
  qed
qed

lemma numbered_ops_Suc:
  "numbered_ops (Suc m) = numbered_ops m @ [(CHR ''k'' # nat_key m, None)]"
  by (simp add: numbered_ops_def)

lemma cap_inv_step:
  assumes "cap_inv m c" "m < 2 ^ 24" "c = 2 ^ j"
  shows "cap_inv (Suc m) (if 5 * 2 ^ j < m then 2 ^ Suc j else 2 ^ j)"
proof -
  from assms(1,2) obtain i where i: "c = 2 ^ i" "7 \<le> i" "m \<le> 5 * c + 1" "7 < i \<longrightarrow> 5 * 2 ^ (i - 1) + 1 < m"
    by (auto simp: cap_inv_def)
  have ij: "i = j" using i(1) assms(3) by simp
  show ?thesis
  proof (cases "5 * 2 ^ j < m")
    case True
    define p :: nat where "p = 2 ^ j"
    have "1 \<le> p" by (simp add: p_def)
    moreover have "m \<le> 5 * p + 1" using i(3) assms(3) by (simp add: p_def)
    ultimately have "Suc m \<le> 5 * (2 * p) + 1" by linarith
    then have "Suc m \<le> 5 * 2 ^ Suc j + 1" by (simp add: p_def)
    moreover have "7 < Suc j \<longrightarrow> 5 * 2 ^ (Suc j - 1) + 1 < Suc m" using True by simp
    moreover have "7 \<le> Suc j" using i(2) ij by simp
    moreover have "Suc m \<le> 2 ^ 24" using assms(2) by simp
    ultimately have "cap_inv (Suc m) (2 ^ Suc j)"
      unfolding cap_inv_def by (intro disjI1 conjI exI [of _ "Suc j"]) simp_all
    then show ?thesis using True by simp
  next
    case False
    have "Suc m \<le> 5 * 2 ^ j + 1" using False by simp
    moreover have "7 < j \<longrightarrow> 5 * 2 ^ (j - 1) + 1 < Suc m" using i(4) ij by auto
    moreover have "7 \<le> j" using i(2) ij by simp
    moreover have "Suc m \<le> 2 ^ 24" using assms(2) by simp
    ultimately have "cap_inv (Suc m) (2 ^ j)"
      unfolding cap_inv_def by (intro disjI1 conjI exI [of _ j]) simp_all
    then show ?thesis using False by simp
  qed
qed

lemma hash_insert_null:
  assumes "hash_wf h" "\<forall>k v. hash_map h k = Some v \<longrightarrow> v = None"
  shows "hash_insert h key val m =
    Inr (hash_put (if float_of_uint LOAD_FACTOR_THR < hash_load_factor h then doubled h else h) key val, m)"
proof -
  have "\<forall>cur \<in> set (old_entries h). snd cur = None"
    using assms(2) old_entries_set [OF hash_wfD(1) [OF assms(1)]] by auto
  then have "free_all (old_entries h) m = Inr m" by (rule free_all_null)
  then show ?thesis by (simp add: hash_insert_wf [OF assms(1)])
qed

lemma numbered_seq_track:
  assumes "m \<le> 20971522"
  shows "\<exists>h :: 'v hash. hash_insert_seq hash_create (numbered_ops m) H = Inr (h, H) \<and>
    hash_wf h \<and> num_elems h = m \<and> cap_inv m (capacity h) \<and>
    hash_map h = (\<lambda>k. if k \<in> (\<lambda>i. CHR ''k'' # nat_key i) ` {0..<m} then Some None else None)"
  using assms
proof (induction m)
  case 0
  have "cap_inv 0 (2 ^ 7)" unfolding cap_inv_def by (intro disjI1 conjI exI [of _ 7]) simp_all
  then show ?case
    by (simp add: numbered_ops_def hash_wf_create hash_map_create hash_create_fields)
next
  case (Suc m)
  let ?k = "CHR ''k'' # nat_key m"
  from Suc obtain h :: "'v hash" where
    IH: "hash_insert_seq hash_create (numbered_ops m) H = Inr (h, H)" "hash_wf h" "num_elems h = m"
      "cap_inv m (capacity h)"
      "hash_map h = (\<lambda>k. if k \<in> (\<lambda>i. CHR ''k'' # nat_key i) ` {0..<m} then Some None else None)"
    by auto
  note wf = hash_wfD [OF IH(2)]
  define g where "g = hash_put (if float_of_uint LOAD_FACTOR_THR < hash_load_factor h then doubled h else h) ?k None"
  have null: "\<forall>k v. hash_map h k = Some v \<longrightarrow> v = None" by (simp add: IH(5) split: if_splits)
  have i: "hash_insert h ?k None H = Inr (g, H)"
    unfolding g_def by (rule hash_insert_null [OF IH(2) null])
  have s: "hash_insert_seq hash_create (numbered_ops (Suc m)) H = Inr (g, H)"
    by (simp add: numbered_ops_Suc hash_insert_seq_snoc IH(1) i)
  have small: "num_elems h + 1 < 2 ^ 32" using Suc.prems by (simp add: IH(3))
  note r = hash_insert_returns [OF IH(2) small i]
  have map: "hash_map g = (\<lambda>k. if k \<in> (\<lambda>i. CHR ''k'' # nat_key i) ` {0..<Suc m} then Some None else None)"
    unfolding r(2) IH(5) by (rule ext) (auto simp: atLeast0_lessThan_Suc)
  have fresh: "?k \<notin> dom (hash_map h)"
    unfolding IH(5) using nat_key_inj by (fastforce split: if_splits)
  have "dom (hash_map g) = insert ?k (dom (hash_map h))" by (simp add: r(2))
  then have card: "card (dom (hash_map g)) = Suc m"
    using fresh finite_dom_hash_map [OF wf(1)] wf(2) by (simp add: IH(3) hash_cnt_def)
  have n: "num_elems g = Suc m" using hash_wfD(2) [OF r(1)] by (simp add: hash_cnt_def card)
  have "cap_inv (Suc m) (capacity g)"
  proof (cases "m < 2 ^ 24")
    case True
    with IH(4) obtain j where j: "capacity h = 2 ^ j" by (auto simp: cap_inv_def)
    have "float_of_uint LOAD_FACTOR_THR < hash_load_factor h \<longleftrightarrow> 5 * 2 ^ j < m"
      using load_factor_exact [OF j] True by (simp add: IH(3) j)
    then have "capacity g = (if 5 * 2 ^ j < m then 2 ^ Suc j else 2 ^ j)" by (simp add: r(4) j)
    then show ?thesis using cap_inv_step [OF IH(4) True j] by simp
  next
    case False
    then have c: "capacity h = 2 ^ 22"
      using IH(4) cap_inv_full [of "capacity h"] by (cases "m = 2 ^ 24") (auto simp: cap_inv_def)
    have "\<not> float_of_uint LOAD_FACTOR_THR < hash_load_factor h"
      by (rule load_factor_tie [OF c]) (use False Suc.prems IH(3) in simp_all)
    then have "capacity g = 2 ^ 22" by (simp add: r(4) c)
    then show ?thesis using False by (simp add: cap_inv_def)
  qed
  then show ?case using s r(1) n map by blast
qed

lemma cap_inv_641: "cap_inv 641 c \<Longrightarrow> c = 2 ^ 7"
proof -
  assume "cap_inv 641 c"
  then obtain j where j: "c = 2 ^ j" "7 \<le> j" "7 < j \<longrightarrow> 5 * 2 ^ (j - 1) + 1 < (641::nat)"
    by (auto simp: cap_inv_def)
  have "\<not> 7 < j"
  proof
    assume "7 < j"
    then have "(2::nat) ^ 7 \<le> 2 ^ (j - 1)" by (intro power_increasing) simp_all
    then show False using j(3) \<open>7 < j\<close> by simp
  qed
  then show ?thesis using j(1,2) by simp
qed

text \<open>
  C5 at 20971522 distinct keys, each with a null value, so that nothing is freed and the heap
  stays as it is. Before the last insertion the table holds \<open>20971521 = 5 * 2 ^ 22 + 1\<close>
  elements in \<open>2 ^ 22\<close> buckets, a load factor above 5; binary32 rounds the count to
  \<open>5 * 2 ^ 22\<close>, the test fails, and the capacity is not doubled.
\<close>

theorem resize_missed_at_tie:
  "\<exists>h1 h2 :: nat hash.
     hash_insert_seq hash_create (numbered_ops 20971521) H = Inr (h1, H) \<and>
     num_elems h1 = 20971521 \<and> capacity h1 = 4194304 \<and> 5 * capacity h1 < num_elems h1 \<and>
     hash_insert_seq hash_create (numbered_ops 20971522) H = Inr (h2, H) \<and>
     capacity h2 = 4194304"
proof -
  from numbered_seq_track [of 20971521 H] obtain h1 :: "nat hash" where
    a: "hash_insert_seq hash_create (numbered_ops 20971521) H = Inr (h1, H)"
      "num_elems h1 = 20971521" "cap_inv 20971521 (capacity h1)"
    by auto
  from numbered_seq_track [of 20971522 H] obtain h2 :: "nat hash" where
    b: "hash_insert_seq hash_create (numbered_ops 20971522) H = Inr (h2, H)"
      "cap_inv 20971522 (capacity h2)"
    by auto
  from a(3) have "capacity h1 = 2 ^ 22" by (simp add: cap_inv_def)
  moreover from b(2) have "capacity h2 = 2 ^ 22" by (simp add: cap_inv_def)
  ultimately show ?thesis using a(1,2) b(1) by (intro exI [of _ h1] exI [of _ h2]) simp
qed

section \<open>Insertions of numbered keys with values\<close>

text \<open>
  The same keys, the \<open>i\<close>-th with the pointer \<open>i\<close> as its value: a client that has
  allocated a block for every value it stores.
\<close>

definition valued_ops :: "nat \<Rightarrow> (string \<times> nat option) list" where
  "valued_ops n = map (\<lambda>i. (CHR ''k'' # nat_key i, Some i)) [0..<n]"

text \<open>The non-null values a table stores, in the order of its buckets.\<close>

definition stored_values :: "'v hash \<Rightarrow> 'v list" where
  "stored_values h = stored (old_entries h)"

lemma valued_ops_Suc: "valued_ops (Suc n) = valued_ops n @ [(CHR ''k'' # nat_key n, Some n)]"
  by (simp add: valued_ops_def)

lemma valued_ops_set: "(k, v) \<in> set (valued_ops n) \<longleftrightarrow> (\<exists>i < n. k = CHR ''k'' # nat_key i \<and> v = Some i)"
  by (auto simp: valued_ops_def)

lemma valued_ops_distinct: "distinct (map fst (valued_ops n))"
proof -
  have "inj_on (\<lambda>i. CHR ''k'' # nat_key i) (set [0..<n])"
    by (rule inj_onI) (simp add: nat_key_inj)
  then have "distinct (map (\<lambda>i. CHR ''k'' # nat_key i) [0..<n])" by (simp add: distinct_map)
  then show ?thesis by (simp add: valued_ops_def comp_def)
qed

lemma valued_ops_map:
  "map_of (valued_ops n) k = Some v \<longleftrightarrow> (\<exists>i < n. k = CHR ''k'' # nat_key i \<and> v = Some i)"
  using map_of_eq_Some_iff [OF valued_ops_distinct, of n k v] by (simp add: valued_ops_set)

lemma valued_ops_map_Suc:
  "map_of (valued_ops (Suc n)) = (map_of (valued_ops n))(CHR ''k'' # nat_key n \<mapsto> Some n)"
proof (rule ext)
  fix k
  have "CHR ''k'' # nat_key n \<notin> dom (map_of (valued_ops n))"
    using nat_key_inj by (fastforce simp: dom_def valued_ops_map)
  then show "map_of (valued_ops (Suc n)) k = ((map_of (valued_ops n))(CHR ''k'' # nat_key n \<mapsto> Some n)) k"
    by (auto simp: valued_ops_Suc map_add_def dom_def split: option.splits)
qed

lemma stored_distinct: "distinct (map snd es) \<Longrightarrow> distinct (stored es)"
proof (induction es)
  case Nil
  show ?case by simp
next
  case (Cons cur es)
  obtain k v where cur: "cur = (k, v)" by (cases cur)
  show ?case
  proof (cases v)
    case None
    with Cons show ?thesis by (simp add: cur)
  next
    case (Some p)
    have "p \<notin> set (stored es)"
    proof
      assume "p \<in> set (stored es)"
      then obtain k' where "(k', Some p) \<in> set es" by (auto simp: set_stored)
      then have "Some p \<in> snd ` set es" by force
      then show False using Cons.prems by (simp add: cur Some)
    qed
    with Cons show ?thesis by (simp add: cur Some)
  qed
qed

lemma valued_table_stored:
  assumes "hash_inv h" "hash_map h = map_of (valued_ops n)"
  shows "set (old_entries h) = set (valued_ops n)" "set (stored_values h) = {0..<n}"
    "distinct (stored_values h)"
proof -
  show s: "set (old_entries h) = set (valued_ops n)"
  proof (rule set_eqI)
    fix x :: "string \<times> nat option"
    obtain k v where x: "x = (k, v)" by (cases x)
    show "x \<in> set (old_entries h) \<longleftrightarrow> x \<in> set (valued_ops n)"
      unfolding x old_entries_set [OF assms(1)] assms(2) valued_ops_map valued_ops_set ..
  qed
  show "set (stored_values h) = {0..<n}"
    unfolding stored_values_def set_stored s by (auto simp: valued_ops_set)
  have "inj_on snd (set (old_entries h))"
    unfolding s by (rule inj_onI) (auto simp: valued_ops_set)
  moreover have "distinct (old_entries h)"
    using old_entries_distinct [OF assms(1)] by (rule distinct_map [THEN iffD1, THEN conjunct1])
  ultimately have "distinct (map snd (old_entries h))" by (simp add: distinct_map)
  then show "distinct (stored_values h)" unfolding stored_values_def by (rule stored_distinct)
qed

lemma put_all_snoc: "put_all g (es @ [cur]) = hash_put (put_all g es) (fst cur) (snd cur)"
  by (simp add: put_all_def)

text \<open>
  The first 641 insertions leave 128 buckets and free nothing. The next one finds 641 elements,
  doubles the capacity and frees the 641 values the table stores. From there to 1281 keys the
  capacity stays 256.
\<close>

lemma valued_seq_track:
  assumes "n \<le> 1281" "{0..<641} \<subseteq> H"
  shows "\<exists>h. hash_insert_seq hash_create (valued_ops n) H =
        Inr (h, if n \<le> 641 then H else H - {0..<641}) \<and>
    hash_wf h \<and> num_elems h = n \<and> capacity h = (if n \<le> 641 then 2 ^ 7 else 2 ^ 8) \<and>
    hash_map h = map_of (valued_ops n) \<and>
    (n \<le> 641 \<longrightarrow> h = put_all hash_create (valued_ops n))"
  using assms(1)
proof (induction n)
  case 0
  show ?case
    by (simp add: valued_ops_def hash_wf_create hash_map_create hash_create_fields)
next
  case (Suc n)
  let ?k = "CHR ''k'' # nat_key n"
  let ?H = "if n \<le> 641 then H else H - {0..<641}"
  from Suc obtain h where
    IH: "hash_insert_seq hash_create (valued_ops n) H = Inr (h, ?H)" "hash_wf h" "num_elems h = n"
      "capacity h = (if n \<le> 641 then 2 ^ 7 else 2 ^ 8)" "hash_map h = map_of (valued_ops n)"
      "n \<le> 641 \<longrightarrow> h = put_all hash_create (valued_ops n)"
    by auto
  note wf = hash_wfD [OF IH(2)]
  obtain j where j: "capacity h = 2 ^ j" "j = (if n \<le> 641 then 7 else 8)"
    using IH(4) by (cases "n \<le> 641") simp_all
  have lf: "float_of_uint LOAD_FACTOR_THR < hash_load_factor h \<longleftrightarrow> n = 641"
  proof -
    have "float_of_uint LOAD_FACTOR_THR < hash_load_factor h \<longleftrightarrow> 5 * capacity h < num_elems h"
      by (rule load_factor_exact [OF j(1)]) (use Suc.prems in \<open>simp add: IH(3)\<close>)
    then show ?thesis using Suc.prems by (auto simp: IH(3,4))
  qed
  define g where "g = hash_put (if n = 641 then doubled h else h) ?k (Some n)"
  define H' where "H' = (if Suc n \<le> 641 then H else H - {0..<641})"
  have i: "hash_insert h ?k (Some n) ?H = Inr (g, H')"
  proof (cases "n = 641")
    case True
    note st = valued_table_stored [OF wf(1) IH(5)]
    have "free_all (old_entries h) H = Inr (H - set (stored (old_entries h)))"
      by (rule free_all_stored)
         (use st assms(2) True in \<open>simp_all add: stored_values_def\<close>)
    then have "free_all (old_entries h) H = Inr (H - {0..<641})"
      using st(2) True by (simp add: stored_values_def)
    then show ?thesis using True lf by (simp add: hash_insert_wf [OF IH(2)] g_def H'_def)
  next
    case False
    then show ?thesis using lf by (auto simp: hash_insert_wf [OF IH(2)] g_def H'_def)
  qed
  have s: "hash_insert_seq hash_create (valued_ops (Suc n)) H = Inr (g, H')"
    by (simp add: valued_ops_Suc hash_insert_seq_snoc IH(1) i)
  have small: "num_elems h + 1 < 2 ^ 32" using Suc.prems by (simp add: IH(3))
  note r = hash_insert_returns [OF IH(2) small i]
  have map: "hash_map g = map_of (valued_ops (Suc n))"
    unfolding r(2) IH(5) valued_ops_map_Suc ..
  have fresh: "?k \<notin> dom (hash_map h)"
    unfolding IH(5) using nat_key_inj by (fastforce simp: dom_def valued_ops_map)
  have "dom (hash_map g) = insert ?k (dom (hash_map h))" by (simp add: r(2))
  then have card: "card (dom (hash_map g)) = Suc n"
    using fresh finite_dom_hash_map [OF wf(1)] wf(2) by (simp add: IH(3) hash_cnt_def)
  have n: "num_elems g = Suc n" using hash_wfD(2) [OF r(1)] by (simp add: hash_cnt_def card)
  have c: "capacity g = (if Suc n \<le> 641 then 2 ^ 7 else 2 ^ 8)"
    using lf Suc.prems by (auto simp: r(4) IH(4))
  have p: "Suc n \<le> 641 \<longrightarrow> g = put_all hash_create (valued_ops (Suc n))"
    using IH(6) by (simp add: g_def valued_ops_Suc put_all_snoc)
  show ?case using s r(1) n c map p unfolding H'_def by blast
qed

lemma valued_642:
  "\<exists>h. hash_insert_seq hash_create (valued_ops 642) {0..<1282} = Inr (h, {641..<1282}) \<and>
      hash_map h = map_of (valued_ops 642)"
proof -
  have H: "{0..<641} \<subseteq> {0..<1282::nat}" by simp
  have d: "{0..<1282} - {0..<641} = {641..<1282::nat}" by auto
  show ?thesis using valued_seq_track [OF _ H, of 642] by (auto simp: d)
qed

lemma valued_1281:
  "\<exists>g. hash_insert_seq hash_create (valued_ops 1281) {0..<1282} = Inr (g, {641..<1282}) \<and>
      hash_wf g \<and> num_elems g = 1281 \<and> capacity g = 2 ^ 8 \<and> hash_map g = map_of (valued_ops 1281)"
proof -
  have H: "{0..<641} \<subseteq> {0..<1282::nat}" by simp
  have d: "{0..<1282} - {0..<641} = {641..<1282::nat}" by auto
  show ?thesis using valued_seq_track [OF _ H, of 1281] by (auto simp: d)
qed

lemma valued_ops_1282: "valued_ops 1282 = valued_ops 1281 @ [(CHR ''k'' # nat_key 1281, Some 1281)]"
proof -
  have "(1282::nat) = Suc 1281" by simp
  then show ?thesis by (simp only: valued_ops_Suc)
qed

lemma valued_first_key: "0 < n \<Longrightarrow> map_of (valued_ops n) (CHR ''k'' # nat_key 0) = Some (Some 0)"
  unfolding valued_ops_map by (intro exI [of _ 0]) simp

text \<open>
  C4 at 1282 distinct keys, each inserted with its own live block as value. The 642nd insertion
  resizes: \<open>_hash_resize\<close> re-inserts each of the 641 associations and then passes it to
  \<open>_association_free\<close>, which frees the value that was just stored again. The table returns
  these pointers from \<open>hash_get\<close>, but their blocks are gone. The 1282nd insertion resizes
  once more and frees one of them a second time.
\<close>

theorem resize_frees_stored_values:
  "(\<exists>h. hash_insert_seq hash_create (valued_ops 642) {0..<1282} = Inr (h, {641..<1282}) \<and>
        hash_get h (CHR ''k'' # nat_key 0) = Some 0) \<and>
   (\<exists>q. hash_insert_seq hash_create (valued_ops 1282) {0..<1282} = Inl (Invalid_free q))"
proof
  from valued_642 obtain h where
    a: "hash_insert_seq hash_create (valued_ops 642) {0..<1282} = Inr (h, {641..<1282})"
      "hash_map h = map_of (valued_ops 642)"
    by blast
  have "hash_map h (CHR ''k'' # nat_key 0) = Some (Some 0)"
    unfolding a(2) by (rule valued_first_key) simp
  then have "hash_get h (CHR ''k'' # nat_key 0) = Some 0" by (simp add: hash_get_map)
  with a(1) show "\<exists>h. hash_insert_seq hash_create (valued_ops 642) {0..<1282} = Inr (h, {641..<1282}) \<and>
        hash_get h (CHR ''k'' # nat_key 0) = Some 0" by blast
  from valued_1281 obtain g where
    b: "hash_insert_seq hash_create (valued_ops 1281) {0..<1282} = Inr (g, {641..<1282})"
      "hash_wf g" "num_elems g = 1281" "capacity g = 2 ^ 8" "hash_map g = map_of (valued_ops 1281)"
    by blast
  have "float_of_uint LOAD_FACTOR_THR < hash_load_factor g \<longleftrightarrow> 5 * capacity g < num_elems g"
    by (rule load_factor_exact [OF b(4)]) (simp add: b(3))
  then have lf: "float_of_uint LOAD_FACTOR_THR < hash_load_factor g" by (simp add: b(3,4))
  have "hash_map g (CHR ''k'' # nat_key 0) = Some (Some 0)"
    unfolding b(5) by (rule valued_first_key) simp
  then have "(CHR ''k'' # nat_key 0, Some 0) \<in> set (old_entries g)"
    by (simp only: old_entries_set [OF hash_wfD(1) [OF b(2)]])
  moreover have "(0::nat) \<notin> {641..<1282}" by simp
  ultimately have "\<exists>q. free_all (old_entries g) {641..<1282} = Inl (Invalid_free q)"
    by (rule free_all_dead)
  then obtain q where f: "free_all (old_entries g) {641..<1282} = Inl (Invalid_free q)" ..
  have "hash_insert g (CHR ''k'' # nat_key 1281) (Some 1281) {641..<1282} = Inl (Invalid_free q)"
    using lf f by (simp add: hash_insert_wf [OF b(2)])
  then have "hash_insert_seq hash_create (valued_ops 1282) {0..<1282} = Inl (Invalid_free q)"
    unfolding valued_ops_1282 hash_insert_seq_snoc b(1) by simp
  then show "\<exists>q. hash_insert_seq hash_create (valued_ops 1282) {0..<1282} = Inl (Invalid_free q)" ..
qed

section \<open>Insertion of a key that is present\<close>









chapter \<open>The translator (parser.y)\<close>

section \<open>Formatted output of numbers\<close>

text \<open>
  The actions print numbers with \<^verbatim>\<open>%d\<close> (line numbers), \<^verbatim>\<open>%.1f\<close> and \<^verbatim>\<open>%g\<close>. The
  payload of a numeric token is a C \<^verbatim>\<open>float\<close>, promoted to \<^verbatim>\<open>double\<close> when printed; it is
  modelled as the rational it denotes, and the conversions round the exact value to the digits
  they print, ties to even.
\<close>

definition digit_char :: "nat \<Rightarrow> char" where
  "digit_char d = ''0123456789'' ! d"

fun decimal :: "nat \<Rightarrow> string" where
  "decimal n = (if n < 10 then [digit_char n] else decimal (n div 10) @ [digit_char (n mod 10)])"

declare decimal.simps [simp del]

fun ndigits :: "nat \<Rightarrow> nat" where
  "ndigits n = (if n = 0 then 0 else Suc (ndigits (n div 10)))"

declare ndigits.simps [simp del]

text \<open>The decimal exponent of a positive rational, \<open>\<lfloor>log\<^sub>1\<^sub>0 a\<rfloor>\<close>.\<close>

definition ilog10 :: "rat \<Rightarrow> int" where
  "ilog10 a = (if 1 \<le> a then int (ndigits (nat \<lfloor>a\<rfloor>)) - 1
               else - int (ndigits (nat (\<lceil>1 / a\<rceil> - 1))))"

definition zero_pad :: "nat \<Rightarrow> string \<Rightarrow> string" where
  "zero_pad w ds = replicate (w - length ds) CHR ''0'' @ ds"

definition sign_of :: "rat \<Rightarrow> string" where
  "sign_of x = (if x < 0 then ''-'' else [])"

text \<open>\<^verbatim>\<open>%.pf\<close>: sign, integer part, and \<open>p\<close> digits after the point.\<close>

definition fmt_f :: "nat \<Rightarrow> rat \<Rightarrow> string" where
  "fmt_f p x =
     (let n = nat (round_half_even (\<bar>x\<bar> * 10 ^ p)) in
      sign_of x @ decimal (n div 10 ^ p) @
      (if p = 0 then [] else ''.'' @ zero_pad p (decimal (n mod 10 ^ p))))"

text \<open>\<^verbatim>\<open>%g\<close> removes trailing zeros of the fraction, and the point when no fraction is left.\<close>

definition strip_zeros :: "string \<Rightarrow> string" where
  "strip_zeros s =
     (if CHR ''.'' \<in> set s
      then (let t = rev (dropWhile (\<lambda>c. c = CHR ''0'') (rev s)) in
            if t \<noteq> [] \<and> last t = CHR ''.'' then butlast t else t)
      else s)"

definition fmt_e_exp :: "int \<Rightarrow> string" where
  "fmt_e_exp X = ''e'' @ (if X < 0 then ''-'' else ''+'') @ zero_pad 2 (decimal (nat \<bar>X\<bar>))"

text \<open>
  \<^verbatim>\<open>%g\<close> with the default precision 6: the value is rounded to six significant digits, which
  fixes the decimal exponent \<open>X\<close>; for \<open>-4 \<le> X < 6\<close> the fixed notation with \<open>5 - X\<close>
  decimals is used, otherwise the exponent notation.
\<close>

definition g_digits :: "rat \<Rightarrow> nat" where
  "g_digits a = nat (round_half_even (a * 10 powi (5 - ilog10 a)))"

definition g_exp :: "rat \<Rightarrow> int" where
  "g_exp a = (if g_digits a = 10 ^ 6 then ilog10 a + 1 else ilog10 a)"

definition g_mant :: "rat \<Rightarrow> nat" where
  "g_mant a = (if g_digits a = 10 ^ 6 then 10 ^ 5 else g_digits a)"

definition fmt_e :: "rat \<Rightarrow> string" where
  "fmt_e x = sign_of x @
     strip_zeros (decimal (g_mant \<bar>x\<bar> div 10 ^ 5) @ ''.'' @ zero_pad 5 (decimal (g_mant \<bar>x\<bar> mod 10 ^ 5))) @
     fmt_e_exp (g_exp \<bar>x\<bar>)"

definition fmt_g :: "rat \<Rightarrow> string" where
  "fmt_g x =
     (if x = 0 then ''0''
      else if - 4 \<le> g_exp \<bar>x\<bar> \<and> g_exp \<bar>x\<bar> < 6
      then strip_zeros (fmt_f (nat (5 - g_exp \<bar>x\<bar>)) x)
      else fmt_e x)"

section \<open>Global state, semantic values and derivation trees\<close>

text \<open>
  A semantic value of type \<^verbatim>\<open><str>\<close> is a \<^verbatim>\<open>char*\<close>. \<open>Block n text\<close> is the pointer to
  the \<open>n\<close>-th block the program obtained from \<^verbatim>\<open>malloc\<close> (through \<^verbatim>\<open>asprintf\<close> or
  \<^verbatim>\<open>strdup\<close>, or in the scanner), together with the text written into that block when it was
  made; no code of the program writes into such a block afterwards, and a block number is never
  used twice, so a pointer that has been freed stays different from every later one. \<open>Wild\<close>
  is a value that is not a pointer to a string.

  The globals of parser.y are the symbol table \<^verbatim>\<open>symbols\<close> and the failure flag \<^verbatim>\<open>_error\<close>
  (only ever 0 or 1). The state has besides them the lines written to the error channel so far,
  the heap, and the number of the next block.
\<close>

datatype cptr = Block nat string | Wild

record pstate =
  symbols :: "cptr hash"
  error_flag :: bool
  stderr :: "string list"
  heap :: "cptr heap"
  next_block :: nat

text \<open>
  One constructor for every production of the grammar, the terminals with a payload the action
  reads as arguments, and for the error productions the line \<^verbatim>\<open>@1.first_line\<close> of their first
  symbol. \<open>Binary\<close> stands for the ten productions \<^verbatim>\<open>expression OP expression\<close>, and
  \<open>Error_newline\<close> for \<^verbatim>\<open>statement: error NEWLINE\<close>. The automaton gives the
  \<^verbatim>\<open>error\<close> token the value of the token at which it detected the error: \<open>Some text\<close>
  when that was a token with a string value (an identifier), \<open>None\<close> when it was a token
  whose value is a number or a category.
\<close>

datatype binop = PLUS | MINUS | TIMES | DIVIDEDBY | EQ | NEQ | GT | GTE | LT | LTE

datatype expression =
    Paren expression
  | Binary expression binop expression
  | INTEGER rat
  | FLOAT rat
  | BOOLEAN string
  | Juxtaposed expression expression
  | IDENTIFIER string nat

datatype assignment_statement =
    Assign string expression
  | Assign_two_identifiers string string expression nat
  | Assign_after_indent string expression nat

datatype statement_list =
    Statements statement_list statement
  | Single statement
and statement =
    Assignment assignment_statement
  | Conditional if_statement
  | Loop while_statement
  | Break
  | Error_newline "string option"
and if_statement =
    If expression statement_list
  | If_elif_else expression statement_list elif_block else_block
  | If_elif expression statement_list elif_block
  | If_else expression statement_list else_block
  | If_missing_colon expression nat
  | Elif_unexpected elif_block nat
  | Elif_unexpected_if elif_block if_statement nat
  | Else_unexpected else_block nat
and elif_block =
    Elif_more elif_block expression statement_list
  | Elif expression statement_list
  | Elif_missing_colon expression statement_list nat
and else_block =
    Else statement_list
  | Else_missing_colon expression nat
and while_statement =
    While expression statement_list
  | While_missing_expression statement_list nat
  | While_missing_colon expression nat

section \<open>The actions\<close>

text \<open>
  The outcome of a reduction: the value \<^verbatim>\<open>$$\<close> with the state, or the state in which an action
  left with \<^verbatim>\<open>YYERROR\<close>, or the fault of a step without defined behaviour. \<open>and_then\<close>
  passes a value and a state on to what follows, and anything else through.
\<close>

datatype outcome = Reduced cptr pstate | YYERROR pstate | Undefined "cptr fault"

fun and_then :: "outcome \<Rightarrow> (cptr \<Rightarrow> pstate \<Rightarrow> outcome) \<Rightarrow> outcome" where
  "and_then (Reduced v s) f = f v s"
| "and_then (YYERROR s) f = YYERROR s"
| "and_then (Undefined x) f = Undefined x"

text \<open>
  \<open>new_string\<close> is a new block with a text (the result of \<^verbatim>\<open>strdup\<close> and of \<^verbatim>\<open>asprintf\<close>);
  \<open>read_string\<close> is the use of a pointer as a \<^verbatim>\<open>%s\<close> argument. \<^verbatim>\<open>asprintf\<close> with one to
  four \<^verbatim>\<open>%s\<close> arguments reads them and makes the block of the text built from them.
\<close>

definition new_string :: "string \<Rightarrow> pstate \<Rightarrow> outcome" where
  "new_string text s =
     Reduced (Block (next_block s) text)
       (s\<lparr>heap := insert (Block (next_block s) text) (heap s), next_block := Suc (next_block s)\<rparr>)"

definition read_string :: "cptr \<Rightarrow> pstate \<Rightarrow> cptr fault + string" where
  "read_string p s =
     (case p of Block n text \<Rightarrow> if p \<in> heap s then Inr text else Inl (Invalid_read (Some p))
      | Wild \<Rightarrow> Inl (Invalid_read (Some p)))"

definition asprintf1 :: "(string \<Rightarrow> string) \<Rightarrow> cptr \<Rightarrow> pstate \<Rightarrow> outcome" where
  "asprintf1 f a s =
     (case read_string a s of Inl x \<Rightarrow> Undefined x | Inr ta \<Rightarrow> new_string (f ta) s)"

definition asprintf2 :: "(string \<Rightarrow> string \<Rightarrow> string) \<Rightarrow> cptr \<Rightarrow> cptr \<Rightarrow> pstate \<Rightarrow> outcome" where
  "asprintf2 f a b s =
     (case read_string a s of Inl x \<Rightarrow> Undefined x | Inr ta \<Rightarrow>
      case read_string b s of Inl x \<Rightarrow> Undefined x | Inr tb \<Rightarrow> new_string (f ta tb) s)"

definition asprintf3 ::
  "(string \<Rightarrow> string \<Rightarrow> string \<Rightarrow> string) \<Rightarrow> cptr \<Rightarrow> cptr \<Rightarrow> cptr \<Rightarrow> pstate \<Rightarrow> outcome" where
  "asprintf3 f a b c s =
     (case read_string a s of Inl x \<Rightarrow> Undefined x | Inr ta \<Rightarrow>
      case read_string b s of Inl x \<Rightarrow> Undefined x | Inr tb \<Rightarrow>
      case read_string c s of Inl x \<Rightarrow> Undefined x | Inr tc \<Rightarrow> new_string (f ta tb tc) s)"

definition asprintf4 ::
  "(string \<Rightarrow> string \<Rightarrow> string \<Rightarrow> string \<Rightarrow> string) \<Rightarrow> cptr \<Rightarrow> cptr \<Rightarrow> cptr \<Rightarrow> cptr \<Rightarrow> pstate \<Rightarrow> outcome"
where
  "asprintf4 f a b c d s =
     (case read_string a s of Inl x \<Rightarrow> Undefined x | Inr ta \<Rightarrow>
      case read_string b s of Inl x \<Rightarrow> Undefined x | Inr tb \<Rightarrow>
      case read_string c s of Inl x \<Rightarrow> Undefined x | Inr tc \<Rightarrow>
      case read_string d s of Inl x \<Rightarrow> Undefined x | Inr td \<Rightarrow> new_string (f ta tb tc td) s)"

text \<open>
  \<^verbatim>\<open>hash_insert(symbols, key, value)\<close> on the globals: the table and the heap it leaves, or its
  fault.
\<close>

definition symbols_insert :: "string \<Rightarrow> cptr \<Rightarrow> pstate \<Rightarrow> cptr fault + pstate" where
  "symbols_insert key val s =
     (case hash_insert (symbols s) key (Some val) (heap s) of Inl x \<Rightarrow> Inl x
      | Inr (h, m) \<Rightarrow> Inr (s\<lparr>symbols := h, heap := m\<rparr>))"

text \<open>
  The three places that write a diagnostic. The macro \<^verbatim>\<open>PARSE_ERROR\<close> prints, sets
  \<^verbatim>\<open>_error\<close> and leaves the action with \<^verbatim>\<open>YYERROR\<close>; the printing and the flag are the
  function below, the \<^verbatim>\<open>YYERROR\<close> is the outcome of the reduction that uses it.
  \<^verbatim>\<open>yyerror\<close>, which the automaton calls on a syntax error, only prints. The third is the
  \<^verbatim>\<open>else\<close> branch of the action for \<^verbatim>\<open>expression: IDENTIFIER\<close>.
\<close>

definition PARSE_ERROR :: "string \<Rightarrow> nat \<Rightarrow> pstate \<Rightarrow> pstate" where
  "PARSE_ERROR err_message first_line s =
     s\<lparr>stderr := stderr s @ [''Error: '' @ err_message @ '' on line '' @ decimal first_line @ ''\<newline>''],
       error_flag := True\<rparr>"

definition yyerror :: "string \<Rightarrow> pstate \<Rightarrow> pstate" where
  "yyerror err s = s\<lparr>stderr := stderr s @ [''Error: '' @ err @ ''\<newline>'']\<rparr>"

definition invalid_symbol :: "string \<Rightarrow> nat \<Rightarrow> pstate \<Rightarrow> pstate" where
  "invalid_symbol name first_line s =
     s\<lparr>stderr := stderr s @
         [''Error: Invalid Symbol ('' @ name @ '') on line '' @ decimal first_line @ ''\<newline>''],
       error_flag := True\<rparr>"

fun binop_text :: "binop \<Rightarrow> string" where
  "binop_text PLUS = ''+''"
| "binop_text MINUS = ''-''"
| "binop_text TIMES = ''*''"
| "binop_text DIVIDEDBY = ''/''"
| "binop_text EQ = ''==''"
| "binop_text NEQ = ''!=''"
| "binop_text GT = ''>''"
| "binop_text GTE = ''>=''"
| "binop_text LT = ''<''"
| "binop_text LTE = ''<=''"

text \<open>
  \<^verbatim>\<open>(int)$1\<close> on a \<^verbatim>\<open>float\<close>: truncation towards zero; outside the range of \<^verbatim>\<open>int\<close>, where
  C leaves the result open, the value x86 delivers.
\<close>

definition int_cast :: "rat \<Rightarrow> int" where
  "int_cast x = (if - (2 ^ 31) - 1 < x \<and> x < 2 ^ 31 then (if 0 \<le> x then \<lfloor>x\<rfloor> else \<lceil>x\<rceil>) else - (2 ^ 31))"

text \<open>
  The reduction of a derivation tree runs the actions in the order the automaton does: the
  children from left to right, then the node. The automaton sets \<^verbatim>\<open>$$\<close> to \<^verbatim>\<open>$1\<close> before it
  runs an action, so an action that assigns nothing (the empty action of
  \<^verbatim>\<open>expression expression\<close>, the failing branch of \<^verbatim>\<open>IDENTIFIER\<close>, \<^verbatim>\<open>error NEWLINE\<close>, the
  action of \<^verbatim>\<open>program\<close>) leaves the value of the first component. No production of
  \<open>expression\<close> uses \<^verbatim>\<open>YYERROR\<close>.

  The value of an \<^verbatim>\<open>IDENTIFIER\<close> token is the scanner's copy of the token text. Where an action
  only reads it, the model uses the text; where the pointer itself becomes a value (the failing
  branch of \<^verbatim>\<open>IDENTIFIER\<close>, the \<^verbatim>\<open>error\<close> token), the model makes the block of that copy
  there.
\<close>

fun reduce_expression :: "expression \<Rightarrow> pstate \<Rightarrow> outcome" where
  "reduce_expression (Paren e) s =
     and_then (reduce_expression e s) (asprintf1 (\<lambda>x. ''('' @ x @ '')''))"
| "reduce_expression (Binary a oper b) s =
     and_then (reduce_expression a s) (\<lambda>va s1.
     and_then (reduce_expression b s1) (\<lambda>vb.
       asprintf2 (\<lambda>x y. x @ '' '' @ binop_text oper @ '' '' @ y) va vb))"
| "reduce_expression (INTEGER num) s = new_string (fmt_g num) s"
| "reduce_expression (FLOAT num) s =
     new_string (if of_int (int_cast num) = num then fmt_f 1 num else fmt_g num) s"
| "reduce_expression (BOOLEAN str) s = new_string (if str \<noteq> ''True'' then ''0'' else ''1'') s"
| "reduce_expression (Juxtaposed a b) s =
     and_then (reduce_expression a s) (\<lambda>va s1.
     and_then (reduce_expression b s1) (\<lambda>vb s2. Reduced va s2))"
| "reduce_expression (IDENTIFIER name first_line) s =
     (if hash_contains (symbols s) name then new_string name s
      else and_then (new_string name s) (\<lambda>v s1. Reduced v (invalid_symbol name first_line s1)))"

text \<open>
  The action of an assignment calls \<^verbatim>\<open>hash_insert\<close> first and \<^verbatim>\<open>asprintf\<close> after it.
\<close>

fun reduce_assignment_statement :: "assignment_statement \<Rightarrow> pstate \<Rightarrow> outcome" where
  "reduce_assignment_statement (Assign name e) s =
     and_then (reduce_expression e s) (\<lambda>v s1.
       case symbols_insert name v s1 of Inl x \<Rightarrow> Undefined x
       | Inr s2 \<Rightarrow> asprintf1 (\<lambda>y. name @ '' = '' @ y @ '';\<newline>'') v s2)"
| "reduce_assignment_statement (Assign_two_identifiers name1 name2 e first_line) s =
     and_then (reduce_expression e s) (\<lambda>v s1.
       YYERROR (PARSE_ERROR ''Invalid assignment statement'' first_line s1))"
| "reduce_assignment_statement (Assign_after_indent name e first_line) s =
     and_then (reduce_expression e s) (\<lambda>v s1.
       YYERROR (PARSE_ERROR ''Invalid indentation'' first_line s1))"

fun reduce_statement_list :: "statement_list \<Rightarrow> pstate \<Rightarrow> outcome"
  and reduce_statement :: "statement \<Rightarrow> pstate \<Rightarrow> outcome"
  and reduce_if_statement :: "if_statement \<Rightarrow> pstate \<Rightarrow> outcome"
  and reduce_elif_block :: "elif_block \<Rightarrow> pstate \<Rightarrow> outcome"
  and reduce_else_block :: "else_block \<Rightarrow> pstate \<Rightarrow> outcome"
  and reduce_while_statement :: "while_statement \<Rightarrow> pstate \<Rightarrow> outcome"
where
  "reduce_statement_list (Statements sl st) s =
     and_then (reduce_statement_list sl s) (\<lambda>v1 s1.
     and_then (reduce_statement st s1) (\<lambda>v2.
       asprintf2 (\<lambda>x y. x @ y) v1 v2))"
| "reduce_statement_list (Single st) s = reduce_statement st s"
| "reduce_statement (Assignment a) s = reduce_assignment_statement a s"
| "reduce_statement (Conditional i) s = reduce_if_statement i s"
| "reduce_statement (Loop w) s = reduce_while_statement w s"
| "reduce_statement Break s = new_string ''break;\<newline>'' s"
| "reduce_statement (Error_newline tok) s =
     (case tok of Some text \<Rightarrow> new_string text s | None \<Rightarrow> Reduced Wild s)"
| "reduce_if_statement (If e sl) s =
     and_then (reduce_expression e s) (\<lambda>v2 s1.
     and_then (reduce_statement_list sl s1) (\<lambda>v6.
       asprintf2 (\<lambda>c b. ''if ('' @ c @ '') {\<newline>'' @ b @ ''}\<newline>'') v2 v6))"
| "reduce_if_statement (If_elif_else e sl ei el) s =
     and_then (reduce_expression e s) (\<lambda>v2 s1.
     and_then (reduce_statement_list sl s1) (\<lambda>v6 s2.
     and_then (reduce_elif_block ei s2) (\<lambda>v8 s3.
     and_then (reduce_else_block el s3) (\<lambda>v9.
       asprintf4 (\<lambda>c b x y. ''if ('' @ c @ '') {\<newline>'' @ b @ ''} '' @ x @ '' '' @ y) v2 v6 v8 v9))))"
| "reduce_if_statement (If_elif e sl ei) s =
     and_then (reduce_expression e s) (\<lambda>v2 s1.
     and_then (reduce_statement_list sl s1) (\<lambda>v6 s2.
     and_then (reduce_elif_block ei s2) (\<lambda>v8.
       asprintf3 (\<lambda>c b x. ''if ('' @ c @ '') {\<newline>'' @ b @ ''} '' @ x) v2 v6 v8)))"
| "reduce_if_statement (If_else e sl el) s =
     and_then (reduce_expression e s) (\<lambda>v2 s1.
     and_then (reduce_statement_list sl s1) (\<lambda>v6 s2.
     and_then (reduce_else_block el s2) (\<lambda>v8.
       asprintf3 (\<lambda>c b x. ''if ('' @ c @ '') {\<newline>'' @ b @ ''} '' @ x) v2 v6 v8)))"
| "reduce_if_statement (If_missing_colon e first_line) s =
     and_then (reduce_expression e s) (\<lambda>v2 s1.
       YYERROR (PARSE_ERROR ''Missing colon after 'if' statement'' first_line s1))"
| "reduce_if_statement (Elif_unexpected ei first_line) s =
     and_then (reduce_elif_block ei s) (\<lambda>v1 s1.
       YYERROR (PARSE_ERROR ''Unexpected 'elif' statement'' first_line s1))"
| "reduce_if_statement (Elif_unexpected_if ei i first_line) s =
     and_then (reduce_elif_block ei s) (\<lambda>v1 s1.
     and_then (reduce_if_statement i s1) (\<lambda>v2 s2.
       YYERROR (PARSE_ERROR ''Unexpected 'elif' statement'' first_line s2)))"
| "reduce_if_statement (Else_unexpected el first_line) s =
     and_then (reduce_else_block el s) (\<lambda>v1 s1.
       YYERROR (PARSE_ERROR ''Unexpected 'else' statement'' first_line s1))"
| "reduce_elif_block (Elif_more ei e sl) s =
     and_then (reduce_elif_block ei s) (\<lambda>v1 s1.
     and_then (reduce_expression e s1) (\<lambda>v3 s2.
     and_then (reduce_statement_list sl s2) (\<lambda>v7.
       asprintf3 (\<lambda>x c b. x @ '' else if ('' @ c @ '') {\<newline>'' @ b @ ''}'') v1 v3 v7)))"
| "reduce_elif_block (Elif e sl) s =
     and_then (reduce_expression e s) (\<lambda>v2 s1.
     and_then (reduce_statement_list sl s1) (\<lambda>v6.
       asprintf2 (\<lambda>c b. ''else if ('' @ c @ '') {\<newline>'' @ b @ ''}'') v2 v6))"
| "reduce_elif_block (Elif_missing_colon e sl first_line) s =
     and_then (reduce_expression e s) (\<lambda>v2 s1.
     and_then (reduce_statement_list sl s1) (\<lambda>v5 s2.
       YYERROR (PARSE_ERROR ''Missing colon after 'elif' statement'' first_line s2)))"
| "reduce_else_block (Else sl) s =
     and_then (reduce_statement_list sl s) (asprintf1 (\<lambda>b. ''else {\<newline>'' @ b @ ''}\<newline>''))"
| "reduce_else_block (Else_missing_colon e first_line) s =
     and_then (reduce_expression e s) (\<lambda>v2 s1.
       YYERROR (PARSE_ERROR ''Missing colon after 'else' statement'' first_line s1))"
| "reduce_while_statement (While e sl) s =
     and_then (reduce_expression e s) (\<lambda>v2 s1.
     and_then (reduce_statement_list sl s1) (\<lambda>v6.
       asprintf2 (\<lambda>c b. ''while ('' @ c @ '') {\<newline>'' @ b @ ''}\<newline>'') v2 v6))"
| "reduce_while_statement (While_missing_expression sl first_line) s =
     and_then (reduce_statement_list sl s) (\<lambda>v5 s1.
       YYERROR (PARSE_ERROR ''Missing expression for 'while' statement'' first_line s1))"
| "reduce_while_statement (While_missing_colon e first_line) s =
     and_then (reduce_expression e s) (\<lambda>v2 s1.
       YYERROR (PARSE_ERROR ''Missing colon after 'while' statement'' first_line s1))"

definition reduce_program :: "statement_list \<Rightarrow> pstate \<Rightarrow> outcome" where
  "reduce_program sl s =
     and_then (reduce_statement_list sl s) (\<lambda>v1 s1.
       case symbols_insert ''program'' v1 s1 of Inl x \<Rightarrow> Undefined x | Inr s2 \<Rightarrow> Reduced v1 s2)"

section \<open>The run of the engine and the emitter\<close>

text \<open>
  Modelled from the spec: the scanner (\<^verbatim>\<open>yylex\<close>, which pushes each token into the parser)
  and the push automaton bison generates from the grammar are not among the sources. The spec
  describes the engine as a deterministic shift/reduce automaton that runs the action of every
  reduction, reports a syntax error through the diagnostic reporter, resynchronizes at the next
  statement end and finally accepts or fails. A run is therefore given by what the engine does
  to the globals, in order: a call of \<^verbatim>\<open>yyerror\<close>, or the reductions of a derivation tree
  (complete, or cut short by \<^verbatim>\<open>YYERROR\<close>); and by the status \<^verbatim>\<open>yylex\<close> returns, 0 when the
  automaton accepted. The string value of a token is taken to be a block of its own that holds
  the token text: the actions read it after later tokens have been scanned.
\<close>

datatype engine_step =
    Syntax_error string
  | Expression expression
  | Statement statement
  | Statement_list statement_list
  | Program statement_list

record engine_run =
  steps :: "engine_step list"
  status :: int

definition outcome_state :: "outcome \<Rightarrow> cptr fault + pstate" where
  "outcome_state r = (case r of Reduced v s \<Rightarrow> Inr s | YYERROR s \<Rightarrow> Inr s | Undefined x \<Rightarrow> Inl x)"

fun run_step :: "engine_step \<Rightarrow> pstate \<Rightarrow> cptr fault + pstate" where
  "run_step (Syntax_error err) s = Inr (yyerror err s)"
| "run_step (Expression e) s = outcome_state (reduce_expression e s)"
| "run_step (Statement st) s = outcome_state (reduce_statement st s)"
| "run_step (Statement_list sl) s = outcome_state (reduce_statement_list sl s)"
| "run_step (Program sl) s = outcome_state (reduce_program sl s)"

fun run_steps :: "engine_step list \<Rightarrow> pstate \<Rightarrow> cptr fault + pstate" where
  "run_steps [] s = Inr s"
| "run_steps (st # rest) s =
     (case run_step st s of Inl x \<Rightarrow> Inl x | Inr s1 \<Rightarrow> run_steps rest s1)"

definition yylex :: "engine_run \<Rightarrow> pstate \<Rightarrow> cptr fault + int \<times> pstate" where
  "yylex run s = (case run_steps (steps run) s of Inl x \<Rightarrow> Inl x | Inr s1 \<Rightarrow> Inr (status run, s1))"

text \<open>
  The emitter. The keys the first loop of \<^verbatim>\<open>main\<close> declares: every key the iterator delivers
  except \<^verbatim>\<open>"program"\<close>. The second loop prints the same keys. Between the loops \<^verbatim>\<open>main\<close>
  prints the string that \<^verbatim>\<open>hash_get(symbols, "program")\<close> returns.
\<close>

definition declarations :: "cptr hash \<Rightarrow> string list" where
  "declarations h =
     map fst (filter (\<lambda>(key, val). key \<noteq> ''program'') (hash_iter_drain (hash_iter_create h)))"

definition declaration_line :: "string \<Rightarrow> string" where
  "declaration_line key = ''double '' @ key @ '';\<newline>''"

definition print_line :: "string \<Rightarrow> string" where
  "print_line key =
     ''printf('' @ [CHR 0x22] @ key @ '': %lf'' @ [CHR 0x5C, CHR ''n'', CHR 0x22] @ '', '' @ key @ '');\<newline>''"

definition emit :: "cptr hash \<Rightarrow> string \<Rightarrow> string" where
  "emit h body =
     ''#include <stdio.h>\<newline>'' @ ''int main() {\<newline>'' @
     concat (map declaration_line (declarations h)) @
     ''\<newline>/* Begin Program */\<newline>\<newline>'' @ body @
     ''\<newline>/* End Program */\<newline>\<newline>'' @
     concat (map print_line (declarations h)) @
     ''}\<newline>''"

text \<open>
  What a run of the program leaves when all its steps are defined: the exit status, the text on
  standard output and the diagnostics. After the emitter \<^verbatim>\<open>main\<close> calls \<^verbatim>\<open>hash_free\<close> and
  returns 0.
\<close>

record process_result =
  exit_status :: int
  stdout :: string
  stderr_text :: "string list"

definition initial_state :: pstate where
  "initial_state =
     \<lparr>symbols = hash_create, error_flag = False, stderr = [], heap = {}, next_block = 0\<rparr>"

definition main :: "engine_run \<Rightarrow> cptr fault + process_result" where
  "main run =
     (case yylex run initial_state of Inl x \<Rightarrow> Inl x
      | Inr (rc, s) \<Rightarrow>
          if rc = 0 \<and> \<not> error_flag s
          then (case hash_get (symbols s) ''program'' of None \<Rightarrow> Inl (Invalid_read None)
                | Some p \<Rightarrow>
                    (case read_string p s of Inl x \<Rightarrow> Inl x
                     | Inr body \<Rightarrow>
                         (case hash_free (symbols s) (heap s) of Inl x \<Rightarrow> Inl x
                          | Inr m \<Rightarrow> Inr \<lparr>exit_status = 0, stdout = emit (symbols s) body,
                                          stderr_text = stderr s\<rparr>)))
          else Inr \<lparr>exit_status = 1, stdout = [], stderr_text = stderr s\<rparr>)"

section \<open>What a reduction does to the globals\<close>

text \<open>
  The identifiers an expression refers to, in the order of their reductions; those of them that
  the table does not contain, and the diagnostic the action prints for each.
\<close>

fun identifiers :: "expression \<Rightarrow> (string \<times> nat) list" where
  "identifiers (Paren e) = identifiers e"
| "identifiers (Binary a oper b) = identifiers a @ identifiers b"
| "identifiers (INTEGER num) = []"
| "identifiers (FLOAT num) = []"
| "identifiers (BOOLEAN str) = []"
| "identifiers (Juxtaposed a b) = identifiers a @ identifiers b"
| "identifiers (IDENTIFIER name first_line) = [(name, first_line)]"

definition undefined_identifiers :: "cptr hash \<Rightarrow> expression \<Rightarrow> (string \<times> nat) list" where
  "undefined_identifiers h e = filter (\<lambda>(name, first_line). \<not> hash_contains h name) (identifiers e)"

definition invalid_symbol_message :: "string \<times> nat \<Rightarrow> string" where
  "invalid_symbol_message = (\<lambda>(name, first_line).
     ''Error: Invalid Symbol ('' @ name @ '') on line '' @ decimal first_line @ ''\<newline>'')"

text \<open>The text a pointer to a block points to.\<close>

fun text_of :: "cptr \<Rightarrow> string" where
  "text_of (Block n text) = text"
| "text_of Wild = []"

lemma read_string_live: "Block n text \<in> heap s \<Longrightarrow> read_string (Block n text) s = Inr text"
  by (simp add: read_string_def)

lemma read_string_Inr: "read_string p s = Inr text \<Longrightarrow> p \<in> heap s \<and> text_of p = text"
  by (auto simp: read_string_def split: cptr.splits if_splits)

text \<open>
  An expression always reduces to a value: a live block, in a state that differs from the one
  before by new blocks, the diagnostics for its undefined identifiers and the flag.
\<close>

lemma reduce_expression_effect:
  "\<exists>n tx s'. reduce_expression e s = Reduced (Block n tx) s' \<and>
     Block n tx \<in> heap s' \<and> heap s \<subseteq> heap s' \<and>
     symbols s' = symbols s \<and>
     stderr s' = stderr s @ map invalid_symbol_message (undefined_identifiers (symbols s) e) \<and>
     error_flag s' = (error_flag s \<or> undefined_identifiers (symbols s) e \<noteq> [])"
proof (induction e arbitrary: s)
  case (Paren e)
  from Paren [of s] obtain n tx s1 where
    a: "reduce_expression e s = Reduced (Block n tx) s1" "Block n tx \<in> heap s1" "heap s \<subseteq> heap s1"
      "symbols s1 = symbols s"
      "stderr s1 = stderr s @ map invalid_symbol_message (undefined_identifiers (symbols s) e)"
      "error_flag s1 = (error_flag s \<or> undefined_identifiers (symbols s) e \<noteq> [])"
    by blast
  show ?case
    using a(2-6) by (auto simp: a(1) asprintf1_def read_string_live new_string_def undefined_identifiers_def)
next
  case (Binary a oper b)
  from Binary(1) [of s] obtain n tx s1 where
    a: "reduce_expression a s = Reduced (Block n tx) s1" "Block n tx \<in> heap s1" "heap s \<subseteq> heap s1"
      "symbols s1 = symbols s"
      "stderr s1 = stderr s @ map invalid_symbol_message (undefined_identifiers (symbols s) a)"
      "error_flag s1 = (error_flag s \<or> undefined_identifiers (symbols s) a \<noteq> [])"
    by blast
  from Binary(2) [of s1] obtain m tx2 s2 where
    b: "reduce_expression b s1 = Reduced (Block m tx2) s2" "Block m tx2 \<in> heap s2" "heap s1 \<subseteq> heap s2"
      "symbols s2 = symbols s1"
      "stderr s2 = stderr s1 @ map invalid_symbol_message (undefined_identifiers (symbols s1) b)"
      "error_flag s2 = (error_flag s1 \<or> undefined_identifiers (symbols s1) b \<noteq> [])"
    by blast
  have l: "Block n tx \<in> heap s2" using a(2) b(3) by auto
  show ?case
    using a(3-6) b(2-6) l
    by (auto simp: a(1) b(1) asprintf2_def read_string_live new_string_def undefined_identifiers_def)
next
  case (Juxtaposed a b)
  from Juxtaposed(1) [of s] obtain n tx s1 where
    a: "reduce_expression a s = Reduced (Block n tx) s1" "Block n tx \<in> heap s1" "heap s \<subseteq> heap s1"
      "symbols s1 = symbols s"
      "stderr s1 = stderr s @ map invalid_symbol_message (undefined_identifiers (symbols s) a)"
      "error_flag s1 = (error_flag s \<or> undefined_identifiers (symbols s) a \<noteq> [])"
    by blast
  from Juxtaposed(2) [of s1] obtain m tx2 s2 where
    b: "reduce_expression b s1 = Reduced (Block m tx2) s2" "Block m tx2 \<in> heap s2" "heap s1 \<subseteq> heap s2"
      "symbols s2 = symbols s1"
      "stderr s2 = stderr s1 @ map invalid_symbol_message (undefined_identifiers (symbols s1) b)"
      "error_flag s2 = (error_flag s1 \<or> undefined_identifiers (symbols s1) b \<noteq> [])"
    by blast
  have l: "Block n tx \<in> heap s2" using a(2) b(3) by auto
  show ?case
    using a(3-6) b(3-6) l
    by (auto simp: a(1) b(1) undefined_identifiers_def)
next
  case (IDENTIFIER name first_line)
  show ?case
    by (auto simp: new_string_def undefined_identifiers_def invalid_symbol_def invalid_symbol_message_def)
qed (auto simp: new_string_def undefined_identifiers_def)

section \<open>Literals\<close>

lemma replicate_numeral: "replicate (numeral k) x = x # replicate (pred_numeral k) x"
  by (simp add: numeral_eq_Suc)

lemma decimal_digit: "n < 10 \<Longrightarrow> decimal n = [digit_char n]"
  by (simp add: decimal.simps)

lemma decimal_1: "decimal 1 = ''1''"
  by (simp add: decimal.simps digit_char_def)

lemma floor_5_25: "\<lfloor>21 / 4 :: rat\<rfloor> = 5"
  by (rule floor_unique) simp_all

lemma ilog10_5: "ilog10 5 = 0" "ilog10 (21 / 4) = 0"
  by (simp_all add: ilog10_def ndigits.simps floor_5_25)

lemma g_exp_5: "g_exp 5 = 0" "g_exp (21 / 4) = 0"
  by (simp_all add: g_exp_def g_digits_def ilog10_5 round_half_even_def)

lemma fmt_g_5: "fmt_g 5 = ''5''"
proof -
  have "fmt_f 5 5 = ''5.00000''"
    by (simp add: fmt_f_def round_half_even_def sign_of_def zero_pad_def decimal.simps digit_char_def
        replicate_numeral)
  then show ?thesis by (simp add: fmt_g_def g_exp_5 strip_zeros_def)
qed

lemma fmt_g_5_25: "fmt_g (21 / 4) = ''5.25''"
proof -
  have "fmt_f 5 (21 / 4) = ''5.25000''"
    by (simp add: fmt_f_def round_half_even_def sign_of_def zero_pad_def decimal.simps digit_char_def
        replicate_numeral)
  then show ?thesis by (simp add: fmt_g_def g_exp_5 strip_zeros_def)
qed

lemma int_cast_of_int:
  assumes "- (2 ^ 31) \<le> i" "i < 2 ^ 31"
  shows "int_cast (of_int i) = i"
proof -
  have "(of_int (- (2 ^ 31)) :: rat) \<le> of_int i" "(of_int i :: rat) < of_int (2 ^ 31)"
    using assms by (simp_all only: of_int_le_iff of_int_less_iff)
  then have "- (2 ^ 31) - 1 < (of_int i :: rat)" "(of_int i :: rat) < 2 ^ 31" by simp_all
  then show ?thesis by (simp add: int_cast_def)
qed

lemma fmt_f_1_of_int:
  "fmt_f 1 (of_int i) = (if i < 0 then ''-'' else []) @ decimal (nat \<bar>i\<bar>) @ ''.0''"
proof -
  have "\<bar>of_int i :: rat\<bar> * 10 ^ 1 = of_int (\<bar>i\<bar> * 10)" by simp
  then have n: "nat (round_half_even (\<bar>of_int i :: rat\<bar> * 10 ^ 1)) = nat \<bar>i\<bar> * 10"
    by (simp only: round_half_even_of_int nat_mult_distrib) simp
  show ?thesis
    unfolding fmt_f_def Let_def n
    by (simp add: sign_of_def zero_pad_def decimal.simps [of 0] digit_char_def)
qed

lemma decimal_Suc_0: "decimal (Suc 0) = ''1''"
  using decimal_1 by simp

lemma reduce_float_5_25: "reduce_expression (FLOAT (21 / 4)) s = new_string ''5.25'' s"
proof -
  have "int_cast (21 / 4) = 5" by (simp add: int_cast_def floor_5_25)
  then show ?thesis by (simp add: fmt_g_5_25)
qed

lemma initial_state_fields [simp]:
  "symbols initial_state = hash_create" "error_flag initial_state = False"
  "stderr initial_state = []" "heap initial_state = {}" "next_block initial_state = 0"
  by (simp_all add: initial_state_def)

lemma hash_contains_create: "\<not> hash_contains hash_create key"
  by (simp add: hash_contains_map hash_map_create)

text \<open>
  C3, as the code has it. The two kinds of numeric token are rendered by different actions. A
  \<^verbatim>\<open>FLOAT\<close> token whose value equals its truncation to \<^verbatim>\<open>int\<close> is printed with
  \<^verbatim>\<open>%.1f\<close>: the digits of the integer and exactly one decimal place, \<open>.0\<close> (5.0 gives
  \<open>5.0\<close>). Every other \<^verbatim>\<open>FLOAT\<close> token and every \<^verbatim>\<open>INTEGER\<close> token is printed with
  \<^verbatim>\<open>%g\<close> (5.25 gives \<open>5.25\<close>, the integer literal 5 gives \<open>5\<close>). \<^verbatim>\<open>True\<close> gives
  \<open>1\<close> and \<^verbatim>\<open>False\<close> gives \<open>0\<close>. In each case the value of the expression is a new
  block with that text.
\<close>

theorem literal_rendering:
  assumes "- (2 ^ 31) \<le> i" and "i < 2 ^ 31"
  shows "reduce_expression (FLOAT (of_int i)) s =
      new_string ((if i < 0 then ''-'' else []) @ decimal (nat \<bar>i\<bar>) @ ''.0'') s \<and>
    (of_int (int_cast x) \<noteq> x \<longrightarrow> reduce_expression (FLOAT x) s = new_string (fmt_g x) s) \<and>
    reduce_expression (FLOAT 5) s = new_string ''5.0'' s \<and>
    reduce_expression (FLOAT (21 / 4)) s = new_string ''5.25'' s \<and>
    reduce_expression (INTEGER num) s = new_string (fmt_g num) s \<and>
    reduce_expression (INTEGER 5) s = new_string ''5'' s \<and>
    reduce_expression (BOOLEAN ''True'') s = new_string ''1'' s \<and>
    reduce_expression (BOOLEAN ''False'') s = new_string ''0'' s"
proof -
  have 1: "reduce_expression (FLOAT (of_int i)) s =
      new_string ((if i < 0 then ''-'' else []) @ decimal (nat \<bar>i\<bar>) @ ''.0'') s"
    using int_cast_of_int [OF assms] fmt_f_1_of_int [of i] by simp
  have "int_cast (of_int 5) = 5" by (rule int_cast_of_int) simp_all
  then have 2: "reduce_expression (FLOAT 5) s = new_string ''5.0'' s"
    using fmt_f_1_of_int [of 5] by (simp add: decimal.simps digit_char_def)
  note 3 = reduce_float_5_25 [of s]
  have 4: "of_int (int_cast x) \<noteq> x \<longrightarrow> reduce_expression (FLOAT x) s = new_string (fmt_g x) s"
    by simp
  have 5: "reduce_expression (INTEGER 5) s = new_string ''5'' s" by (simp add: fmt_g_5)
  have 6: "reduce_expression (INTEGER num) s = new_string (fmt_g num) s"
    "reduce_expression (BOOLEAN ''True'') s = new_string ''1'' s"
    "reduce_expression (BOOLEAN ''False'') s = new_string ''0'' s" by simp_all
  from 1 4 2 3 6(1) 5 6(2,3) show ?thesis by (intro conjI)
qed

text \<open>C3 at the tokens 7.0, 5.25 and 5.\<close>

theorem literal_rendering_witness:
  "- (2 ^ 31) \<le> (7::int) \<and> (7::int) < 2 ^ 31 \<and>
   reduce_expression (FLOAT (of_int 7)) initial_state = new_string ''7.0'' initial_state \<and>
   of_int (int_cast (21 / 4)) \<noteq> (21 / 4 :: rat) \<and>
   reduce_expression (FLOAT (21 / 4)) initial_state = new_string (fmt_g (21 / 4)) initial_state \<and>
   reduce_expression (INTEGER 5) initial_state = new_string ''5'' initial_state"
proof -
  have h: "- (2 ^ 31) \<le> (7::int)" "(7::int) < 2 ^ 31" by simp_all
  have c: "int_cast (21 / 4) = 5" by (simp add: int_cast_def floor_5_25)
  have d: "decimal 7 = ''7''" by (simp add: decimal.simps digit_char_def)
  from literal_rendering [OF h, where x = "21 / 4" and s = initial_state] show ?thesis
    by (simp add: c d fmt_g_5 del: reduce_expression.simps)
qed

text \<open>
  C3 as stated fails: the \<^verbatim>\<open>INTEGER\<close> token 5 equals its truncation, and it is rendered
  \<open>5\<close>, without a decimal place.
\<close>

theorem integer_literal_rendering:
  "of_int (int_cast 5) = (5 :: rat) \<and>
   reduce_expression (INTEGER 5) initial_state =
     Reduced (Block 0 ''5'') (initial_state\<lparr>heap := {Block 0 ''5''}, next_block := 1\<rparr>) \<and>
   ''5'' \<noteq> ''5.0''"
proof -
  have "int_cast (of_int 5) = 5" by (rule int_cast_of_int) simp_all
  then show ?thesis by (simp add: fmt_g_5 new_string_def)
qed

section \<open>Diagnostics\<close>

text \<open>
  C6. When an expression refers to an identifier that the symbol table does not contain, its
  reduction writes \<^verbatim>\<open>Error: Invalid Symbol (<name>) on line <N>\<close> with the name and the line
  of the identifier and sets the failure flag. The diagnostics of the expression are those of
  its undefined identifiers, in order; the table is not changed. The error is not fatal: the
  reduction neither leaves with \<^verbatim>\<open>YYERROR\<close> nor faults, it yields a value, a live block, and
  the enclosing statement (here an assignment) is reduced as usual, with that value.
\<close>

theorem undefined_identifier_diagnostic:
  assumes "(name, first_line) \<in> set (identifiers e)" and "\<not> hash_contains (symbols s) name"
  shows "\<exists>v s'. reduce_expression e s = Reduced v s' \<and> v \<in> heap s' \<and>
    ''Error: Invalid Symbol ('' @ name @ '') on line '' @ decimal first_line @ ''\<newline>''
        \<in> set (stderr s') \<and>
    error_flag s' \<and>
    symbols s' = symbols s \<and>
    stderr s' = stderr s @ map invalid_symbol_message (undefined_identifiers (symbols s) e) \<and>
    reduce_statement (Assignment (Assign lhs e)) s =
      (case symbols_insert lhs v s' of Inl x \<Rightarrow> Undefined x
       | Inr s2 \<Rightarrow> asprintf1 (\<lambda>y. lhs @ '' = '' @ y @ '';\<newline>'') v s2)"
proof -
  from reduce_expression_effect [of e s] obtain n tx s' where
    r: "reduce_expression e s = Reduced (Block n tx) s'" "Block n tx \<in> heap s'"
      "symbols s' = symbols s"
      "stderr s' = stderr s @ map invalid_symbol_message (undefined_identifiers (symbols s) e)"
      "error_flag s' = (error_flag s \<or> undefined_identifiers (symbols s) e \<noteq> [])"
    by blast
  have u: "(name, first_line) \<in> set (undefined_identifiers (symbols s) e)"
    using assms by (simp add: undefined_identifiers_def)
  then have "invalid_symbol_message (name, first_line) \<in> set (stderr s')"
    using r(4) by simp
  moreover have "undefined_identifiers (symbols s) e \<noteq> []" using u by auto
  ultimately show ?thesis using r by (simp add: invalid_symbol_message_def)
qed

text \<open>C6 at the expression \<^verbatim>\<open>x > 5\<close> on line 1 of an empty table.\<close>

theorem undefined_identifier_diagnostic_witness:
  "(''x'', 1) \<in> set (identifiers (Binary (IDENTIFIER ''x'' 1) GT (INTEGER 5))) \<and>
   \<not> hash_contains (symbols initial_state) ''x'' \<and>
   (\<exists>v s'. reduce_expression (Binary (IDENTIFIER ''x'' 1) GT (INTEGER 5)) initial_state = Reduced v s' \<and>
      stderr s' = [''Error: Invalid Symbol (x) on line 1\<newline>''] \<and> error_flag s')"
proof -
  have h: "(''x'', 1) \<in> set (identifiers (Binary (IDENTIFIER ''x'' 1) GT (INTEGER 5)))"
    "\<not> hash_contains (symbols initial_state) ''x''"
    by (simp_all add: hash_contains_create)
  from undefined_identifier_diagnostic [OF h, of "''y''"]
  obtain v s' where
    r: "reduce_expression (Binary (IDENTIFIER ''x'' 1) GT (INTEGER 5)) initial_state = Reduced v s'"
      "error_flag s'"
      "stderr s' = stderr initial_state @ map invalid_symbol_message
         (undefined_identifiers (symbols initial_state) (Binary (IDENTIFIER ''x'' 1) GT (INTEGER 5)))"
    by blast
  have "stderr s' = [''Error: Invalid Symbol (x) on line 1\<newline>'']"
    unfolding r(3)
    by (simp add: undefined_identifiers_def invalid_symbol_message_def decimal_Suc_0 hash_contains_create)
  then show ?thesis using h r(1,2) by blast
qed

section \<open>The symbol table of the translator\<close>

lemma hash_insert_below:
  assumes "hash_wf h" "capacity h = 2 ^ 7" "num_elems h \<le> 640"
  shows "hash_insert h key val m = Inr (hash_put h key val, m)"
proof -
  have "float_of_uint LOAD_FACTOR_THR < hash_load_factor h \<longleftrightarrow> 5 * capacity h < num_elems h"
    by (rule load_factor_exact [OF assms(2)]) (use assms(3) in simp)
  then have "\<not> float_of_uint LOAD_FACTOR_THR < hash_load_factor h" using assms(2,3) by simp
  then show ?thesis by (simp add: hash_insert_wf [OF assms(1)])
qed

lemma stored_distinct_inj:
  assumes "distinct (map fst es)"
    and "\<forall>k k' p. (k, Some p) \<in> set es \<longrightarrow> (k', Some p) \<in> set es \<longrightarrow> k = k'"
  shows "distinct (stored es)"
  using assms
proof (induction es)
  case Nil
  show ?case by simp
next
  case (Cons cur es)
  obtain k v where cur: "cur = (k, v)" by (cases cur)
  have d: "distinct (stored es)" by (rule Cons.IH) (use Cons.prems in auto)
  show ?case
  proof (cases v)
    case None
    with d show ?thesis by (simp add: cur)
  next
    case (Some p)
    have "p \<notin> set (stored es)"
    proof
      assume "p \<in> set (stored es)"
      then obtain k' where k': "(k', Some p) \<in> set es" by (auto simp: set_stored)
      with Cons.prems(2) have "k' = k" by (auto simp: cur Some)
      with k' have "k \<in> fst ` set es" by force
      then show False using Cons.prems(1) by (simp add: cur)
    qed
    with d show ?thesis by (simp add: cur Some)
  qed
qed

lemma stored_values_set:
  assumes "hash_inv h"
  shows "set (stored_values h) = {p. \<exists>k. hash_map h k = Some (Some p)}"
  by (simp add: stored_values_def set_stored old_entries_set [OF assms])

lemma stored_values_distinct:
  assumes "hash_inv h"
    and "\<forall>k k' p. hash_map h k = Some (Some p) \<longrightarrow> hash_map h k' = Some (Some p) \<longrightarrow> k = k'"
  shows "distinct (stored_values h)"
  unfolding stored_values_def
  by (rule stored_distinct_inj [OF old_entries_distinct [OF assms(1)]])
     (use assms(2) in \<open>simp add: old_entries_set [OF assms(1)]\<close>)

lemma declarations_set:
  assumes "hash_inv h"
  shows "set (declarations h) = dom (hash_map h) - {''program''}" and "distinct (declarations h)"
proof -
  have f: "map fst (filter (\<lambda>(key, val). key \<noteq> ''program'') xs) = filter (\<lambda>key. key \<noteq> ''program'') (map fst xs)"
    for xs :: "(string \<times> cptr option) list"
    by (induction xs) auto
  have k: "set (map fst (old_entries h)) = dom (hash_map h)"
    using assms by (simp add: map_of_old_entries [symmetric] dom_map_of_conv_image_fst)
  show "set (declarations h) = dom (hash_map h) - {''program''}"
    unfolding declarations_def f hash_iter_drain_create using k by auto
  show "distinct (declarations h)"
    unfolding declarations_def f hash_iter_drain_create
    using old_entries_distinct [OF assms] by simp
qed

section \<open>Reassignment\<close>

text \<open>
  C7. Let a statement list be reduced to the block \<open>body\<close>, and let an assignment follow it,
  to an identifier that may have been assigned before. Whenever the reduction of the longer list
  returns, its text is the text of \<open>body\<close> followed by the text of the new assignment, and the
  block \<open>body\<close> is still there: what was synthesized is neither removed nor altered, the body
  grows by appending in source order. In the table the identifier now has the new fragment, and
  no other entry changes, so a lookup sees the new value from here on. The reduction does return
  when the table is below the threshold and \<open>body\<close> can be read.
\<close>

theorem reassignment_appends:
  assumes "reduce_statement_list sl s = Reduced body s1"
    and "hash_wf (symbols s1)" and "num_elems (symbols s1) + 1 < 2 ^ 32"
  shows "(\<forall>v3 s3. reduce_statement_list (Statements sl (Assignment (Assign name e))) s = Reduced v3 s3 \<longrightarrow>
      (\<exists>frag s2. reduce_expression e s1 = Reduced frag s2 \<and>
         text_of v3 = text_of body @ name @ '' = '' @ text_of frag @ '';\<newline>'' \<and>
         body \<in> heap s3 \<and> v3 \<in> heap s3 \<and>
         hash_get (symbols s3) name = Some frag \<and>
         (\<forall>k. k \<noteq> name \<longrightarrow> hash_get (symbols s3) k = hash_get (symbols s1) k))) \<and>
    (read_string body s1 = Inr (text_of body) \<and>
     \<not> float_of_uint LOAD_FACTOR_THR < hash_load_factor (symbols s1) \<longrightarrow>
      (\<exists>v3 s3. reduce_statement_list (Statements sl (Assignment (Assign name e))) s = Reduced v3 s3))"
proof -
  from reduce_expression_effect [of e s1] obtain n tx s2 where
    r: "reduce_expression e s1 = Reduced (Block n tx) s2" "Block n tx \<in> heap s2" "heap s1 \<subseteq> heap s2"
      "symbols s2 = symbols s1"
    by blast
  let ?f = "\<lambda>y. name @ '' = '' @ y @ '';\<newline>''"
  have red: "reduce_statement_list (Statements sl (Assignment (Assign name e))) s =
    and_then (case symbols_insert name (Block n tx) s2 of Inl x \<Rightarrow> Undefined x
              | Inr s2' \<Rightarrow> asprintf1 ?f (Block n tx) s2')
      (asprintf2 (\<lambda>x y. x @ y) body)"
    by (simp add: assms(1) r(1))
  have 1: "\<exists>frag s2. reduce_expression e s1 = Reduced frag s2 \<and>
         text_of v3 = text_of body @ name @ '' = '' @ text_of frag @ '';\<newline>'' \<and>
         body \<in> heap s3 \<and> v3 \<in> heap s3 \<and>
         hash_get (symbols s3) name = Some frag \<and>
         (\<forall>k. k \<noteq> name \<longrightarrow> hash_get (symbols s3) k = hash_get (symbols s1) k)"
    if ret: "reduce_statement_list (Statements sl (Assignment (Assign name e))) s = Reduced v3 s3"
    for v3 s3
  proof -
    from ret obtain sa where sa: "symbols_insert name (Block n tx) s2 = Inr sa"
      unfolding red by (cases "symbols_insert name (Block n tx) s2") simp_all
    then obtain h m where
      i: "hash_insert (symbols s1) name (Some (Block n tx)) (heap s2) = Inr (h, m)"
      and sa_eq: "sa = s2\<lparr>symbols := h, heap := m\<rparr>"
      by (auto simp: symbols_insert_def r(4) split: sum.splits)
    note ins = hash_insert_returns [OF assms(2,3) i]
    from ret obtain ta where ta: "read_string (Block n tx) sa = Inr ta"
      unfolding red sa by (cases "read_string (Block n tx) sa") (simp_all add: asprintf1_def)
    have ta_eq: "ta = tx" using read_string_Inr [OF ta] by simp
    define v2 where "v2 = Block (next_block sa) (?f tx)"
    define sb where "sb = sa\<lparr>heap := insert v2 (heap sa), next_block := Suc (next_block sa)\<rparr>"
    have a1: "asprintf1 ?f (Block n tx) sa = Reduced v2 sb"
      by (simp add: asprintf1_def ta ta_eq new_string_def v2_def sb_def)
    from ret have ret2: "asprintf2 (\<lambda>x y. x @ y) body v2 sb = Reduced v3 s3"
      unfolding red sa sum.case a1 and_then.simps .
    then obtain tb where tb: "read_string body sb = Inr tb"
      by (cases "read_string body sb") (simp_all add: asprintf2_def)
    have tv: "read_string v2 sb = Inr (?f tx)" by (simp add: v2_def sb_def read_string_def)
    from ret2 have v3: "v3 = Block (next_block sb) (tb @ ?f tx)"
      and s3: "s3 = sb\<lparr>heap := insert v3 (heap sb), next_block := Suc (next_block sb)\<rparr>"
      by (auto simp: asprintf2_def tb tv new_string_def)
    have tb_eq: "tb = text_of body" using read_string_Inr [OF tb] by simp
    have lb: "body \<in> heap sb" using read_string_Inr [OF tb] by simp
    have sym: "symbols s3 = h" by (simp add: s3 sb_def sa_eq)
    have "text_of v3 = text_of body @ name @ '' = '' @ text_of (Block n tx) @ '';\<newline>''"
      by (simp add: v3 tb_eq)
    moreover have "body \<in> heap s3" "v3 \<in> heap s3" using lb by (simp_all add: s3)
    moreover have "hash_get (symbols s3) name = Some (Block n tx)"
      by (simp add: sym hash_get_map ins(2))
    moreover have "\<forall>k. k \<noteq> name \<longrightarrow> hash_get (symbols s3) k = hash_get (symbols s1) k"
      by (simp add: sym hash_get_map ins(2))
    ultimately show ?thesis using r(1) by blast
  qed
  have 2: "\<exists>v3 s3. reduce_statement_list (Statements sl (Assignment (Assign name e))) s = Reduced v3 s3"
    if b: "read_string body s1 = Inr (text_of body)" and lf: "\<not> float_of_uint LOAD_FACTOR_THR < hash_load_factor (symbols s1)"
  proof -
    have i: "symbols_insert name (Block n tx) s2 =
        Inr (s2\<lparr>symbols := hash_put (symbols s1) name (Some (Block n tx)), heap := heap s2\<rparr>)"
      using lf by (simp add: symbols_insert_def r(4) hash_insert_wf [OF assms(2)])
    obtain i tb where "body = Block i tb" "Block i tb \<in> heap s2"
      using b r(3) by (cases body) (auto simp: read_string_def split: if_splits)
    then show ?thesis
      using r(2) unfolding red i
      by (simp add: asprintf1_def asprintf2_def read_string_def new_string_def)
  qed
  from 1 2 show ?thesis by blast
qed

text \<open>The state after the reduction of \<^verbatim>\<open>x = 5\<close> in the initial state.\<close>

definition after_x_5 :: pstate where
  "after_x_5 =
     \<lparr>symbols = hash_put hash_create ''x'' (Some (Block 0 ''5'')), error_flag = False, stderr = [],
      heap = {Block 0 ''5'', Block 1 ''x = 5;\<newline>''}, next_block = 2\<rparr>"

lemma hash_insert_create: "hash_insert hash_create key val m = Inr (hash_put hash_create key val, m)"
  by (rule hash_insert_below [OF hash_wf_create]) (simp_all add: hash_create_fields)

lemma reduce_first_assignment:
  "reduce_statement_list (Single (Assignment (Assign ''x'' (INTEGER 5)))) initial_state =
     Reduced (Block 1 ''x = 5;\<newline>'') after_x_5"
  by (simp add: fmt_g_5 new_string_def symbols_insert_def hash_insert_create asprintf1_def
      read_string_def after_x_5_def initial_state_def insert_commute)

lemma after_x_5_table:
  "hash_wf (symbols after_x_5)" "num_elems (symbols after_x_5) + 1 < 2 ^ 32"
  "\<not> float_of_uint LOAD_FACTOR_THR < hash_load_factor (symbols after_x_5)"
proof -
  have s: "symbols after_x_5 = hash_put hash_create ''x'' (Some (Block 0 ''5''))"
    by (simp add: after_x_5_def)
  have n: "num_elems (symbols after_x_5) \<le> 1"
    unfolding s using hash_put_num_elems [of hash_create "''x''" "Some (Block 0 ''5'')"]
    by (simp add: hash_create_fields)
  show wf: "hash_wf (symbols after_x_5)"
    unfolding s by (rule hash_put_wf [OF hash_wf_create]) (simp_all add: hash_create_fields)
  show "num_elems (symbols after_x_5) + 1 < 2 ^ 32" using n by simp
  have c: "capacity (symbols after_x_5) = 2 ^ 7" by (simp add: s hash_create_fields)
  have "float_of_uint LOAD_FACTOR_THR < hash_load_factor (symbols after_x_5) \<longleftrightarrow>
      5 * capacity (symbols after_x_5) < num_elems (symbols after_x_5)"
    by (rule load_factor_exact [OF c]) (use n in simp)
  then show "\<not> float_of_uint LOAD_FACTOR_THR < hash_load_factor (symbols after_x_5)"
    using n c by simp
qed

text \<open>C7 at \<^verbatim>\<open>x = 5\<close> followed by \<^verbatim>\<open>x = 5.25\<close>.\<close>

theorem reassignment_appends_witness:
  "reduce_statement_list (Single (Assignment (Assign ''x'' (INTEGER 5)))) initial_state =
     Reduced (Block 1 ''x = 5;\<newline>'') after_x_5 \<and>
   hash_wf (symbols after_x_5) \<and> num_elems (symbols after_x_5) + 1 < 2 ^ 32 \<and>
   hash_get (symbols after_x_5) ''x'' = Some (Block 0 ''5'') \<and>
   (\<exists>v3 s3. reduce_statement_list
       (Statements (Single (Assignment (Assign ''x'' (INTEGER 5))))
          (Assignment (Assign ''x'' (FLOAT (21 / 4))))) initial_state = Reduced v3 s3 \<and>
      text_of v3 = ''x = 5;\<newline>x = 5.25;\<newline>'' \<and>
      Block 1 ''x = 5;\<newline>'' \<in> heap s3 \<and>
      hash_get (symbols s3) ''x'' = Some (Block 2 ''5.25''))"
proof -
  let ?sl = "Single (Assignment (Assign ''x'' (INTEGER 5)))"
  let ?e = "FLOAT (21 / 4)"
  note t = reassignment_appends [OF reduce_first_assignment after_x_5_table(1,2), of "''x''" ?e]
  have rd: "read_string (Block 1 ''x = 5;\<newline>'') after_x_5 = Inr (text_of (Block 1 ''x = 5;\<newline>''))"
    by (simp add: read_string_def after_x_5_def)
  from t [THEN conjunct2] rd after_x_5_table(3)
  obtain v3 s3 where
    r: "reduce_statement_list (Statements ?sl (Assignment (Assign ''x'' ?e))) initial_state = Reduced v3 s3"
    by blast
  from t [THEN conjunct1, rule_format, OF r] obtain frag s2 where
    f: "reduce_expression ?e after_x_5 = Reduced frag s2"
      "text_of v3 = text_of (Block 1 ''x = 5;\<newline>'') @ ''x'' @ '' = '' @ text_of frag @ '';\<newline>''"
      "Block 1 ''x = 5;\<newline>'' \<in> heap s3" "hash_get (symbols s3) ''x'' = Some frag"
    by blast
  have "frag = Block 2 ''5.25''"
    using f(1) by (simp only: reduce_float_5_25) (simp add: new_string_def after_x_5_def)
  then have "text_of v3 = ''x = 5;\<newline>x = 5.25;\<newline>''" "hash_get (symbols s3) ''x'' = Some (Block 2 ''5.25'')"
    using f(2,4) by simp_all
  moreover have "hash_get (symbols after_x_5) ''x'' = Some (Block 0 ''5'')"
    by (simp add: after_x_5_def hash_get_map hash_put_map [OF hash_inv_create])
  ultimately show ?thesis
    using reduce_first_assignment after_x_5_table(1,2) r f(3) by blast
qed

section \<open>Two malformed inputs\<close>

text \<open>
  The input \<^verbatim>\<open>if x > 5\<close> and a newline, nothing else: the tokens
  \<^verbatim>\<open>IF IDENTIFIER(x) GT INTEGER(5) NEWLINE\<close> on line 1, reduced by
  \<^verbatim>\<open>if_statement: IF expression NEWLINE\<close>.
\<close>

definition if_without_colon :: statement where
  "if_without_colon = Conditional (If_missing_colon (Binary (IDENTIFIER ''x'' 1) GT (INTEGER 5)) 1)"

text \<open>
  The input \<^verbatim>\<open>x y z\<close> and a newline: after \<^verbatim>\<open>IDENTIFIER IDENTIFIER\<close> the automaton
  expects \<^verbatim>\<open>ASSIGN\<close>, calls \<^verbatim>\<open>yyerror\<close> at the third identifier, shifts the \<^verbatim>\<open>error\<close>
  token with the value of the offending token, skips to the newline, reduces
  \<^verbatim>\<open>statement: error NEWLINE\<close>, then the statement list and the program, and accepts.
\<close>

definition recovered_run :: engine_run where
  "recovered_run =
     \<lparr>steps = [Syntax_error ''syntax error, unexpected IDENTIFIER, expecting ASSIGN'',
                Program (Single (Error_newline (Some ''z'')))],
      status = 0\<rparr>"

lemma single_entry_table:
  "hash_map (hash_put hash_create key val) = [key \<mapsto> val]"
  "hash_inv (hash_put hash_create key val)"
  by (simp_all add: hash_put_map [OF hash_inv_create] hash_map_create hash_put_inv [OF hash_inv_create])

lemma declarations_program_only:
  "declarations (hash_put hash_create ''program'' v) = []"
proof -
  from declarations_set(1) [OF single_entry_table(2)]
  have "set (declarations (hash_put hash_create ''program'' v)) = {}"
    by (simp add: single_entry_table(1))
  then show ?thesis by simp
qed

lemma hash_free_single:
  "p \<in> m \<Longrightarrow> hash_free (hash_put hash_create key (Some p)) m = Inr (m - {p})"
proof -
  assume p: "p \<in> m"
  let ?h = "hash_put hash_create key (Some p)"
  have s: "set (stored_values ?h) = {p}"
    by (auto simp: stored_values_set [OF single_entry_table(2)] single_entry_table(1) split: if_splits)
  have d: "distinct (stored_values ?h)"
    by (rule stored_values_distinct [OF single_entry_table(2)])
       (auto simp: single_entry_table(1) split: if_splits)
  have "free_all (old_entries ?h) m = Inr (m - set (stored (old_entries ?h)))"
    by (rule free_all_stored) (use s d p in \<open>simp_all add: stored_values_def\<close>)
  then show ?thesis using s by (simp add: hash_free_def stored_values_def)
qed

text \<open>
  C8, as the code has it. For the input \<^verbatim>\<open>if x > 5\<close> without colon and block, \<open>x\<close>
  never assigned, the translator writes two diagnostics: the invalid symbol \<open>x\<close> on line 1,
  from the reduction of the condition, and then the missing colon on line 1. It prints no
  program text and returns a nonzero status, whatever the engine returns after the error.
\<close>

theorem if_without_colon_diagnostics:
  "main \<lparr>steps = [Statement if_without_colon], status = rc\<rparr> =
     Inr \<lparr>exit_status = 1, stdout = [],
          stderr_text = [''Error: Invalid Symbol (x) on line 1\<newline>'',
                         ''Error: Missing colon after 'if' statement on line 1\<newline>'']\<rparr>"
  by (simp add: main_def yylex_def if_without_colon_def outcome_state_def initial_state_def
      hash_contains_create invalid_symbol_def PARSE_ERROR_def decimal_Suc_0 new_string_def
      asprintf2_def read_string_def fmt_g_5)

text \<open>C8 as stated fails: the diagnostics of that input are two, not one.\<close>

theorem if_without_colon_two_diagnostics:
  "main \<lparr>steps = [Statement if_without_colon], status = 1\<rparr> =
     Inr \<lparr>exit_status = 1, stdout = [],
          stderr_text = [''Error: Invalid Symbol (x) on line 1\<newline>'',
                         ''Error: Missing colon after 'if' statement on line 1\<newline>'']\<rparr> \<and>
   [''Error: Invalid Symbol (x) on line 1\<newline>'',
    ''Error: Missing colon after 'if' statement on line 1\<newline>''] \<noteq>
   [''Error: Missing colon after 'if' statement on line 1\<newline>'']"
  by (simp add: main_def yylex_def if_without_colon_def outcome_state_def initial_state_def
      hash_contains_create invalid_symbol_def PARSE_ERROR_def decimal_Suc_0 new_string_def
      asprintf2_def read_string_def fmt_g_5)

text \<open>
  C2 at the input \<^verbatim>\<open>x y z\<close>. A diagnostic is written, the syntax error reported through
  \<^verbatim>\<open>yyerror\<close>; \<^verbatim>\<open>yyerror\<close> does not set the flag, the automaton recovers and accepts, and
  the emitter runs: the program text is printed and the exit status is 0.
\<close>

theorem recovered_syntax_error_emits:
  "main recovered_run =
     Inr \<lparr>exit_status = 0,
          stdout = ''#include <stdio.h>\<newline>int main() {\<newline>'' @
                   ''\<newline>/* Begin Program */\<newline>\<newline>'' @ ''z'' @
                   ''\<newline>/* End Program */\<newline>\<newline>'' @ ''}\<newline>'',
          stderr_text = [''Error: syntax error, unexpected IDENTIFIER, expecting ASSIGN\<newline>'']\<rparr>"
proof -
  have g: "hash_get (hash_put hash_create ''program'' (Some (Block 0 ''z''))) ''program'' =
      Some (Block 0 ''z'')"
    by (simp add: hash_get_map single_entry_table(1))
  have f: "hash_free (hash_put hash_create ''program'' (Some (Block 0 ''z''))) {Block 0 ''z''} = Inr {}"
    using hash_free_single [of "Block 0 ''z''" "{Block 0 ''z''}" "''program''"] by simp
  show ?thesis
    by (simp add: main_def yylex_def recovered_run_def outcome_state_def initial_state_def
        reduce_program_def yyerror_def emit_def declarations_program_only g f new_string_def
        symbols_insert_def hash_insert_create read_string_def)
qed

section \<open>A program with 641 identifiers\<close>

text \<open>
  The program \<^verbatim>\<open>k = True\<close>, \<^verbatim>\<open>k1 = True\<close>, \<^verbatim>\<open>k01 = True\<close>, ...: one assignment for each of
  the numbered keys from 0 to \<open>n\<close>, as the left-recursive rule for \<open>statement_list\<close> derives
  it.
\<close>

fun assignments :: "nat \<Rightarrow> statement_list" where
  "assignments 0 = Single (Assignment (Assign (CHR ''k'' # nat_key 0) (BOOLEAN ''True'')))"
| "assignments (Suc n) =
     Statements (assignments n) (Assignment (Assign (CHR ''k'' # nat_key (Suc n)) (BOOLEAN ''True'')))"

text \<open>
  The state while fewer than 642 identifiers have been assigned and nothing has been freed: the
  table holds the first \<open>n\<close> keys in 128 buckets, every value is a live block of its own, and
  the blocks of the heap have numbers below the next one.
\<close>

definition symbols_live :: "nat \<Rightarrow> pstate \<Rightarrow> bool" where
  "symbols_live n s \<longleftrightarrow>
     hash_wf (symbols s) \<and> capacity (symbols s) = 2 ^ 7 \<and> num_elems (symbols s) = n \<and>
     dom (hash_map (symbols s)) = (\<lambda>i. CHR ''k'' # nat_key i) ` {0..<n} \<and>
     (\<forall>k v. hash_map (symbols s) k = Some v \<longrightarrow> (\<exists>p. v = Some p \<and> p \<in> heap s)) \<and>
     (\<forall>k k' p. hash_map (symbols s) k = Some (Some p) \<longrightarrow>
         hash_map (symbols s) k' = Some (Some p) \<longrightarrow> k = k') \<and>
     (\<forall>p \<in> heap s. \<exists>i t. p = Block i t \<and> i < next_block s) \<and>
     \<not> error_flag s \<and> stderr s = []"

lemma symbols_live_initial: "symbols_live 0 initial_state"
  by (simp add: symbols_live_def hash_wf_create hash_create_fields hash_map_create)

lemma assignment_live:
  assumes "symbols_live n s" "n \<le> 640"
  defines "key \<equiv> CHR ''k'' # nat_key n"
  defines "val \<equiv> Block (next_block s) ''1''"
  defines "v \<equiv> Block (Suc (next_block s)) (key @ '' = 1;\<newline>'')"
  defines "s' \<equiv> s\<lparr>symbols := hash_put (symbols s) key (Some val),
                   heap := insert v (insert val (heap s)), next_block := Suc (Suc (next_block s))\<rparr>"
  shows "reduce_statement (Assignment (Assign key (BOOLEAN ''True''))) s = Reduced v s'"
    and "symbols_live (Suc n) s'"
    and "hash_map (symbols s') = (hash_map (symbols s))(key \<mapsto> Some val)"
proof -
  from assms(1) have
    wf: "hash_wf (symbols s)" and cap: "capacity (symbols s) = 2 ^ 7" and num: "num_elems (symbols s) = n"
    and dom: "dom (hash_map (symbols s)) = (\<lambda>i. CHR ''k'' # nat_key i) ` {0..<n}"
    and live: "\<forall>k v. hash_map (symbols s) k = Some v \<longrightarrow> (\<exists>p. v = Some p \<and> p \<in> heap s)"
    and inj: "\<forall>k k' p. hash_map (symbols s) k = Some (Some p) \<longrightarrow>
         hash_map (symbols s) k' = Some (Some p) \<longrightarrow> k = k'"
    and low: "\<forall>p \<in> heap s. \<exists>i t. p = Block i t \<and> i < next_block s"
    and ok: "\<not> error_flag s" "stderr s = []"
    by (simp_all add: symbols_live_def)
  note inv = hash_wfD(1) [OF wf]
  have ins: "hash_insert (symbols s) key (Some val) m = Inr (hash_put (symbols s) key (Some val), m)" for m
    by (rule hash_insert_below [OF wf cap]) (use assms(2) num in simp)
  show "reduce_statement (Assignment (Assign key (BOOLEAN ''True''))) s = Reduced v s'"
    by (simp add: new_string_def symbols_insert_def ins [unfolded val_def] asprintf1_def
        read_string_def val_def v_def s'_def)
  have fresh_val: "val \<notin> heap s" using low by (auto simp: val_def)
  have map: "hash_map (symbols s') = (hash_map (symbols s))(key \<mapsto> Some val)"
    by (simp add: s'_def hash_put_map [OF inv])
  then show "hash_map (symbols s') = (hash_map (symbols s))(key \<mapsto> Some val)" .
  have fresh_key: "key \<notin> dom (hash_map (symbols s))"
    unfolding dom key_def using nat_key_inj by fastforce
  have "hash_wf (symbols s')"
    unfolding s'_def using assms(2) by (simp add: hash_put_wf [OF wf] cap num)
  moreover have "capacity (symbols s') = 2 ^ 7" by (simp add: s'_def cap)
  moreover have "num_elems (symbols s') = Suc n"
    using fresh_key assms(2) by (simp add: s'_def hash_put_num_elems_eq num)
  moreover have "dom (hash_map (symbols s')) = (\<lambda>i. CHR ''k'' # nat_key i) ` {0..<Suc n}"
    by (simp add: map dom key_def atLeast0_lessThan_Suc)
  moreover have "\<forall>k x. hash_map (symbols s') k = Some x \<longrightarrow> (\<exists>p. x = Some p \<and> p \<in> heap s')"
    using live by (auto simp: s'_def hash_put_map [OF inv] split: if_splits)
  moreover have "\<forall>k k' p. hash_map (symbols s') k = Some (Some p) \<longrightarrow>
         hash_map (symbols s') k' = Some (Some p) \<longrightarrow> k = k'"
  proof (intro allI impI)
    fix k k' p
    assume a: "hash_map (symbols s') k = Some (Some p)" "hash_map (symbols s') k' = Some (Some p)"
    have old: "hash_map (symbols s) x = Some (Some q) \<Longrightarrow> q \<noteq> val" for x q
      using live fresh_val by fastforce
    show "k = k'"
    proof (cases "k = key")
      case True
      then have "p = val" using a(1) by (simp add: map)
      then show ?thesis using a(2) old [of k' p] True by (cases "k' = key") (simp_all add: map)
    next
      case False
      then have k: "hash_map (symbols s) k = Some (Some p)" using a(1) by (simp add: map)
      then have "p \<noteq> val" by (rule old)
      then have "k' \<noteq> key" using a(2) by (auto simp: map)
      then have "hash_map (symbols s) k' = Some (Some p)" using a(2) by (simp add: map)
      with k inj show ?thesis by blast
    qed
  qed
  moreover have "\<forall>p \<in> heap s'. \<exists>i t. p = Block i t \<and> i < next_block s'"
    using low by (fastforce simp: s'_def v_def val_def)
  moreover have "\<not> error_flag s'" "stderr s' = []" using ok by (simp_all add: s'_def)
  ultimately show "symbols_live (Suc n) s'" unfolding symbols_live_def by blast
qed

text \<open>A block that can be read and that the table does not store.\<close>

definition unstored :: "cptr \<Rightarrow> pstate \<Rightarrow> bool" where
  "unstored p s \<longleftrightarrow>
     read_string p s = Inr (text_of p) \<and> (\<forall>k. hash_map (symbols s) k \<noteq> Some (Some p))"

lemma assignments_live:
  "n \<le> 640 \<Longrightarrow> \<exists>body s. reduce_statement_list (assignments n) initial_state = Reduced body s \<and>
     symbols_live (Suc n) s \<and> unstored body s"
proof (induction n)
  case 0
  note a = assignment_live [OF symbols_live_initial, of]
  have "unstored (Block (Suc (next_block initial_state)) ((CHR ''k'' # nat_key 0) @ '' = 1;\<newline>''))
      (initial_state\<lparr>symbols := hash_put (symbols initial_state) (CHR ''k'' # nat_key 0)
          (Some (Block (next_block initial_state) ''1'')),
        heap := insert (Block (Suc (next_block initial_state)) ((CHR ''k'' # nat_key 0) @ '' = 1;\<newline>''))
          (insert (Block (next_block initial_state) ''1'') (heap initial_state)),
        next_block := Suc (Suc (next_block initial_state))\<rparr>)"
    unfolding unstored_def using a(3) by (simp add: read_string_def hash_map_create)
  with a(1,2) show ?case by (simp only: assignments.simps reduce_statement_list.simps) blast
next
  case (Suc n)
  then obtain body s1 where
    IH: "reduce_statement_list (assignments n) initial_state = Reduced body s1"
      "symbols_live (Suc n) s1" "unstored body s1"
    by auto
  let ?key = "CHR ''k'' # nat_key (Suc n)"
  let ?val = "Block (next_block s1) ''1''"
  let ?v = "Block (Suc (next_block s1)) (?key @ '' = 1;\<newline>'')"
  let ?s2 = "s1\<lparr>symbols := hash_put (symbols s1) ?key (Some ?val),
                 heap := insert ?v (insert ?val (heap s1)), next_block := Suc (Suc (next_block s1))\<rparr>"
  have le: "Suc n \<le> 640" using Suc.prems .
  note a = assignment_live [OF IH(2) le]
  from IH(3) obtain i t where body: "body = Block i t" "Block i t \<in> heap s1"
    and ns: "\<forall>k. hash_map (symbols s1) k \<noteq> Some (Some body)"
    by (cases body) (auto simp: unstored_def read_string_def split: if_splits)
  have low: "\<forall>p \<in> heap s1. \<exists>i t. p = Block i t \<and> i < next_block s1"
    using IH(2) by (simp add: symbols_live_def)
  have i: "i < next_block s1" using low body(2) by fastforce
  let ?b = "Block (Suc (Suc (next_block s1))) (t @ ?key @ '' = 1;\<newline>'')"
  let ?s3 = "?s2\<lparr>heap := insert ?b (heap ?s2), next_block := Suc (next_block ?s2)\<rparr>"
  have "asprintf2 (\<lambda>x y. x @ y) body ?v ?s2 = Reduced ?b ?s3"
    using body by (simp add: asprintf2_def read_string_def new_string_def)
  then have red: "reduce_statement_list (assignments (Suc n)) initial_state = Reduced ?b ?s3"
    by (simp only: assignments.simps reduce_statement_list.simps IH(1) and_then.simps a(1))
  have live3: "symbols_live (Suc (Suc n)) ?s3"
    using a(2) unfolding symbols_live_def by (simp (no_asm_use)) fastforce
  have low2: "\<forall>p \<in> heap ?s2. \<exists>i t. p = Block i t \<and> i < next_block ?s2"
    using a(2) by (simp add: symbols_live_def)
  have vals: "\<forall>k x. hash_map (symbols ?s2) k = Some x \<longrightarrow> (\<exists>p. x = Some p \<and> p \<in> heap ?s2)"
    using a(2) by (simp add: symbols_live_def)
  have "hash_map (symbols ?s3) k \<noteq> Some (Some ?b)" for k
  proof
    assume "hash_map (symbols ?s3) k = Some (Some ?b)"
    then have "hash_map (symbols ?s2) k = Some (Some ?b)" by simp
    with vals have "?b \<in> heap ?s2" by fastforce
    with low2 show False by fastforce
  qed
  then have "unstored ?b ?s3" by (simp add: unstored_def read_string_def)
  with red live3 show ?case by blast
qed

text \<open>
  C1 at the program of 641 assignments to 641 different identifiers, every identifier defined
  before use, accepted by the engine. The action of \<^verbatim>\<open>program\<close> calls \<open>hash_insert\<close> on a
  table of 641 elements in 128 buckets; the insertion resizes, and \<open>_hash_resize\<close> frees the
  641 values the table goes on storing. \<^verbatim>\<open>main\<close> gets through the emitter and then calls
  \<open>hash_free\<close>, which frees one of these values a second time: the run has no defined
  behaviour and does not return the status 0.
\<close>

theorem many_identifiers_double_free:
  "\<exists>q. main \<lparr>steps = [Program (assignments 640)], status = 0\<rparr> = Inl (Invalid_free q)"
proof -
  from assignments_live [of 640] obtain body s where
    r: "reduce_statement_list (assignments 640) initial_state = Reduced body s"
      "symbols_live (Suc 640) s" "unstored body s"
    by auto
  let ?h = "symbols s"
  from r(2) have
    wf: "hash_wf ?h" and cap: "capacity ?h = 2 ^ 7" and num: "num_elems ?h = Suc 640"
    and dom: "dom (hash_map ?h) = (\<lambda>i. CHR ''k'' # nat_key i) ` {0..<Suc 640}"
    and live: "\<forall>k v. hash_map ?h k = Some v \<longrightarrow> (\<exists>p. v = Some p \<and> p \<in> heap s)"
    and inj: "\<forall>k k' p. hash_map ?h k = Some (Some p) \<longrightarrow> hash_map ?h k' = Some (Some p) \<longrightarrow> k = k'"
    and ok: "\<not> error_flag s"
    by (simp_all add: symbols_live_def)
  note inv = hash_wfD(1) [OF wf]
  have "float_of_uint LOAD_FACTOR_THR < hash_load_factor ?h \<longleftrightarrow> 5 * capacity ?h < num_elems ?h"
    by (rule load_factor_exact [OF cap]) (simp add: num)
  then have lf: "float_of_uint LOAD_FACTOR_THR < hash_load_factor ?h" by (simp add: cap num)
  note cap2 = resize_capacity [OF inv lf]
  note d = doubled_facts [OF wf cap2(2)]
  have st: "set (stored_values ?h) \<subseteq> heap s"
    using live by (fastforce simp: stored_values_set [OF inv])
  have "free_all (old_entries ?h) (heap s) = Inr (heap s - set (stored (old_entries ?h)))"
    by (rule free_all_stored)
       (use st stored_values_distinct [OF inv inj] in \<open>simp_all add: stored_values_def\<close>)
  then have ins: "hash_insert ?h ''program'' (Some body) (heap s) =
      Inr (hash_put (doubled ?h) ''program'' (Some body), heap s - set (stored_values ?h))"
    using lf by (simp add: hash_insert_wf [OF wf] stored_values_def)
  define sf where "sf = s\<lparr>symbols := hash_put (doubled ?h) ''program'' (Some body),
                          heap := heap s - set (stored_values ?h)\<rparr>"
  have prog: "reduce_program (assignments 640) initial_state = Reduced body sf"
    by (simp add: reduce_program_def r(1) symbols_insert_def ins sf_def)
  have y: "yylex \<lparr>steps = [Program (assignments 640)], status = 0\<rparr> initial_state = Inr (0, sf)"
    by (simp add: yylex_def prog outcome_state_def)
  have map: "hash_map (symbols sf) = (hash_map ?h)(''program'' \<mapsto> Some body)"
    by (simp add: sf_def hash_put_map [OF d(1)] d(2))
  have invf: "hash_inv (symbols sf)" by (simp add: sf_def hash_put_inv [OF d(1)])
  have g: "hash_get (symbols sf) ''program'' = Some body" by (simp add: hash_get_map map)
  from r(3) obtain i t where body: "body = Block i t" "Block i t \<in> heap s"
    and ns: "\<forall>k. hash_map ?h k \<noteq> Some (Some body)"
    by (cases body) (auto simp: unstored_def read_string_def split: if_splits)
  have "body \<notin> set (stored_values ?h)" using ns by (simp add: stored_values_set [OF inv])
  then have rd: "read_string body sf = Inr t" using body by (simp add: read_string_def sf_def)
  have "CHR ''k'' # nat_key 0 \<in> dom (hash_map ?h)" unfolding dom by (rule imageI) simp
  then obtain p where p: "hash_map ?h (CHR ''k'' # nat_key 0) = Some (Some p)"
    using live by fastforce
  have "hash_map (symbols sf) (CHR ''k'' # nat_key 0) = Some (Some p)" by (simp add: map p)
  then have e: "(CHR ''k'' # nat_key 0, Some p) \<in> set (old_entries (symbols sf))"
    by (simp only: old_entries_set [OF invf])
  have "p \<in> set (stored_values ?h)" using p by (auto simp: stored_values_set [OF inv])
  then have "p \<notin> heap sf" by (simp add: sf_def)
  with e have "\<exists>q. free_all (old_entries (symbols sf)) (heap sf) = Inl (Invalid_free q)"
    by (rule free_all_dead)
  then obtain q where "hash_free (symbols sf) (heap sf) = Inl (Invalid_free q)"
    by (auto simp: hash_free_def)
  moreover have "\<not> error_flag sf" using ok by (simp add: sf_def)
  ultimately have "main \<lparr>steps = [Program (assignments 640)], status = 0\<rparr> = Inl (Invalid_free q)"
    by (simp add: main_def y g rd)
  then show ?thesis ..
qed

end
